theory Spec2Isabelle
  imports Main "HOL-Library.Signed_Division" "HOL-Library.AList"
begin

section \<open>The cluster manager's Redis client and connection pool (pkg/topom/redis.go)\<close>

text \<open>
  The Go file defines \<^verbatim>\<open>RedisClient\<close>, one connection to one node with the administrative
  commands issued over it, and \<^verbatim>\<open>RedisPool\<close>, a registry of idle clients per address.
  Both are embedded here function by function. Mutation is explicit state passing: every
  operation takes the client (or the pool) and the \<open>world\<close> and returns the updated ones.
  Go's \<^verbatim>\<open>(value, error)\<close> results are sums, \<open>Inl\<close> carrying the error.
\<close>

subsection \<open>Values on the wire, errors\<close>

type_synonym time = int
  \<comment> \<open>\<^verbatim>\<open>time.Time\<close>, as nanoseconds on one time line\<close>
type_synonym duration = int
  \<comment> \<open>\<^verbatim>\<open>time.Duration\<close>: nanoseconds\<close>
type_synonym conn = nat
  \<comment> \<open>the handle of a \<^verbatim>\<open>redis.Conn\<close>\<close>

text \<open>An argument of a command (\<^verbatim>\<open>args ...interface{}\<close>): the file passes strings and ints.\<close>

datatype arg = AStr string | AInt int

text \<open>
  A reply as the connection hands it over (\<^verbatim>\<open>interface{}\<close>): an integer, a bulk string,
  a simple string, an array, nil, or an error reply.
\<close>

datatype reply =
    RInt int
  | RBulk string
  | RStatus string
  | RArray "reply list"
  | RNil
  | RError string

text \<open>
  Errors. \<open>ErrFailedRedisClient\<close> and \<open>ErrClosedRedisPool\<close> are the two package variables.
  \<open>LibError\<close> is an error value that a library call returned (the connection, the reply
  decoders, \<^verbatim>\<open>net\<close>); \<open>Trace\<close> is \<^verbatim>\<open>errors.Trace\<close> around one. The four \<^verbatim>\<open>errors.Errorf\<close> calls
  of the file are one constructor each, carrying the values their format strings print:
  \<^verbatim>\<open>"invalid response[%d] = %v"\<close>, \<^verbatim>\<open>"invalid response = %v"\<close>,
  \<^verbatim>\<open>"migrate slot-%04d failed, response = %v"\<close> and \<^verbatim>\<open>"can not slave of itself"\<close>.
\<close>

datatype error =
    ErrFailedRedisClient
  | ErrClosedRedisPool
  | LibError string
  | Trace error
  | InvalidResponseAt nat reply
  | InvalidResponse reply
  | MigrateFailed int reply
  | SlaveOfItself

text \<open>
  \<^verbatim>\<open>float64\<close>, as far as \<^verbatim>\<open>GetMaxMemory\<close> produces it: \<open>F64 n\<close> is the double whose value is
  the integer \<open>n\<close>, \<open>PosInf\<close> is \<^verbatim>\<open>math.Inf(0)\<close>.
\<close>

datatype float64 = F64 int | PosInf

text \<open>
  The conversion \<^verbatim>\<open>float64(v)\<close> of a Go \<^verbatim>\<open>int\<close> (64 bits on the platforms the manager runs
  on): a double has a significand of 53 bits, and a value that does not fit is rounded to
  the nearest double, ties to the even significand. \<open>f64_ulp a\<close> is the distance between
  neighbouring doubles at the magnitude \<open>a\<close>. No 64-bit value overflows to an infinity.
\<close>

function f64_ulp :: "int \<Rightarrow> int" where
  "f64_ulp a = (if a < 2 ^ 53 then 1 else 2 * f64_ulp (a div 2))"
  by pat_completeness auto
termination
  by (relation "measure nat") auto

declare f64_ulp.simps [simp del]

definition float64_of_int :: "int \<Rightarrow> float64" where
  "float64_of_int v =
     (let a = \<bar>v\<bar>;
          u = f64_ulp a;
          q = a div u;
          r = a mod u;
          q' = (if u < 2 * r \<or> (2 * r = u \<and> odd q) then q + 1 else q)
      in F64 (sgn v * (q' * u)))"

subsection \<open>The libraries the file calls\<close>

text \<open>
  The reply decoders of the connection library (\<^verbatim>\<open>redis.Values\<close>, \<^verbatim>\<open>redis.Ints\<close>,
  \<^verbatim>\<open>redis.Int\<close>, \<^verbatim>\<open>redis.String\<close>, each taking a reply and an error and returning a value or
  an error), \<^verbatim>\<open>strings.TrimSpace\<close>, \<^verbatim>\<open>net.JoinHostPort\<close> and \<^verbatim>\<open>net.SplitHostPort\<close> are not
  part of the file. The operations take them as a parameter \<open>L\<close>, and every theorem holds
  for every such library.
\<close>

record lib =
  redis_Values :: "reply \<Rightarrow> error option \<Rightarrow> error + reply list"
  redis_Ints :: "reply \<Rightarrow> error option \<Rightarrow> error + int list"
  redis_Int :: "reply \<Rightarrow> error option \<Rightarrow> error + int"
  redis_String :: "reply \<Rightarrow> error option \<Rightarrow> error + string"
  strings_TrimSpace :: "string \<Rightarrow> string"
  net_JoinHostPort :: "string \<Rightarrow> string \<Rightarrow> string"
  net_SplitHostPort :: "string \<Rightarrow> error + (string \<times> string)"

text \<open>
  \<^verbatim>\<open>redis.Ints(redis.Values(reply, nil))\<close>: the two results of \<^verbatim>\<open>Values\<close> are the two
  arguments of \<^verbatim>\<open>Ints\<close>; on an error the slice is the nil slice.
\<close>

definition Ints_of_Values :: "lib \<Rightarrow> reply \<Rightarrow> error + int list" where
  "Ints_of_Values L reply =
     (case redis_Values L reply None of
        Inl err \<Rightarrow> redis_Ints L (RArray []) (Some err)
      | Inr vs \<Rightarrow> redis_Ints L (RArray vs) None)"

text \<open>\<^verbatim>\<open>strings.Split(s, sep)\<close> and \<^verbatim>\<open>strings.SplitN(s, sep, 2)\<close> for a separator of one byte.\<close>

fun strings_Split :: "string \<Rightarrow> char \<Rightarrow> string list" where
  "strings_Split [] sep = [[]]"
| "strings_Split (x # xs) sep =
     (if x = sep then [] # strings_Split xs sep
      else (case strings_Split xs sep of
              [] \<Rightarrow> [[x]]
            | l # ls \<Rightarrow> (x # l) # ls))"

definition strings_SplitN2 :: "string \<Rightarrow> char \<Rightarrow> string list" where
  "strings_SplitN2 s sep =
     (if sep \<in> set s
      then [takeWhile (\<lambda>x. x \<noteq> sep) s, tl (dropWhile (\<lambda>x. x \<noteq> sep) s)]
      else [s])"

subsection \<open>The world outside: clock, network, log\<close>

text \<open>
  Everything the file does to its environment is an update of the \<open>world\<close>:
  \<^item> \<^verbatim>\<open>time.Now()\<close> returns \<open>clock w (reads w)\<close> and counts the reading, so the clock may
    show a new time at every reading;
  \<^item> \<^verbatim>\<open>conn.Do\<close> appends the command to \<open>sent\<close> and returns what the network answers to
    the \<open>k\<close>-th command sent (\<open>respond w k\<close>: a reply or an error);
  \<^item> \<^verbatim>\<open>redis.DialTimeout\<close> appends the address to \<open>dialed\<close>; the \<open>k\<close>-th dial fails with
    \<open>dial_error w k\<close> or yields the fresh connection \<open>k\<close>;
  \<^item> \<^verbatim>\<open>conn.Close()\<close> appends the connection to \<open>closed_conns\<close>;
  \<^item> \<^verbatim>\<open>log.Warnf\<close> appends its arguments to \<open>warnings\<close>.
  The three oracles \<open>clock\<close>, \<open>respond\<close> and \<open>dial_error\<close> are arbitrary.
\<close>

record world =
  clock :: "nat \<Rightarrow> time"
  reads :: nat
  respond :: "nat \<Rightarrow> error + reply"
  sent :: "(conn \<times> string \<times> arg list) list"
  dial_error :: "nat \<Rightarrow> error option"
  dialed :: "string list"
  closed_conns :: "conn list"
  warnings :: "(string \<times> string) list"

definition time_Now :: "world \<Rightarrow> time \<times> world" where
  "time_Now w = (clock w (reads w), w\<lparr>reads := Suc (reads w)\<rparr>)"

definition conn_Do :: "conn \<Rightarrow> string \<Rightarrow> arg list \<Rightarrow> world \<Rightarrow> (error + reply) \<times> world" where
  "conn_Do cn cmd args w = (respond w (length (sent w)), w\<lparr>sent := sent w @ [(cn, cmd, args)]\<rparr>)"

definition conn_Close :: "conn \<Rightarrow> world \<Rightarrow> world" where
  "conn_Close cn w = w\<lparr>closed_conns := closed_conns w @ [cn]\<rparr>"

definition redis_DialTimeout :: "string \<Rightarrow> world \<Rightarrow> (error + conn) \<times> world" where
  "redis_DialTimeout a w =
     (case dial_error w (length (dialed w)) of
        Some err \<Rightarrow> (Inl err, w\<lparr>dialed := dialed w @ [a]\<rparr>)
      | None \<Rightarrow> (Inr (length (dialed w)), w\<lparr>dialed := dialed w @ [a]\<rparr>))"

definition log_Warnf :: "string \<Rightarrow> string \<Rightarrow> world \<Rightarrow> world" where
  "log_Warnf m a w = w\<lparr>warnings := warnings w @ [(m, a)]\<rparr>"

subsection \<open>RedisClient\<close>

record RedisClient =
  conn :: conn
  addr :: string
  LastErr :: "error option"
  LastUse :: time

text \<open>\<^verbatim>\<open>NewRedisClient(addr, auth, timeout)\<close>: dial, authenticate if a secret is set.\<close>

definition NewRedisClient :: "string \<Rightarrow> string \<Rightarrow> duration \<Rightarrow> world \<Rightarrow> (error + RedisClient) \<times> world" where
  "NewRedisClient a au tmo w =
     (case redis_DialTimeout a w of
        (Inl err, w1) \<Rightarrow> (Inl (Trace err), w1)
      | (Inr cn, w1) \<Rightarrow>
          (if au \<noteq> [] then
             (case conn_Do cn ''AUTH'' [AStr au] w1 of
                (Inl err, w2) \<Rightarrow> (Inl (Trace err), conn_Close cn w2)
              | (Inr _, w2) \<Rightarrow>
                  (case time_Now w2 of
                     (t, w3) \<Rightarrow> (Inr \<lparr>conn = cn, addr = a, LastErr = None, LastUse = t\<rparr>, w3)))
           else
             (case time_Now w1 of
                (t, w3) \<Rightarrow> (Inr \<lparr>conn = cn, addr = a, LastErr = None, LastUse = t\<rparr>, w3))))"

text \<open>\<^verbatim>\<open>func (c *RedisClient) command(cmd string, args ...interface{})\<close>, lines 48 to 59.\<close>

definition command :: "RedisClient \<Rightarrow> string \<Rightarrow> arg list \<Rightarrow> world \<Rightarrow> (error + reply) \<times> RedisClient \<times> world" where
  "command c cmd args w =
     (if LastErr c \<noteq> None then (Inl ErrFailedRedisClient, c, w)
      else
        (case conn_Do (conn c) cmd args w of
           (Inl err, w1) \<Rightarrow> (Inl (Trace err), c\<lparr>LastErr := Some (Trace err)\<rparr>, w1)
         | (Inr reply, w1) \<Rightarrow>
             (case time_Now w1 of (t, w2) \<Rightarrow> (Inr reply, c\<lparr>LastUse := t\<rparr>, w2))))"

text \<open>A caller issuing one command after the other on the same client.\<close>

fun commands :: "RedisClient \<Rightarrow> (string \<times> arg list) list \<Rightarrow> world \<Rightarrow> (error + reply) list \<times> RedisClient \<times> world" where
  "commands c [] w = ([], c, w)"
| "commands c ((cmd, args) # rest) w =
     (case command c cmd args w of
        (r, c1, w1) \<Rightarrow> (case commands c1 rest w1 of (rs, c2, w2) \<Rightarrow> (r # rs, c2, w2)))"



text \<open>\<^verbatim>\<open>SlotsMgrtTagSlot(host, port, slotId)\<close>, lines 81 to 94.\<close>

definition SlotsMgrtTagSlot :: "lib \<Rightarrow> RedisClient \<Rightarrow> string \<Rightarrow> string \<Rightarrow> int \<Rightarrow> world \<Rightarrow> (error + int) \<times> RedisClient \<times> world" where
  "SlotsMgrtTagSlot L c host port slotId w =
     (case command c ''SLOTSMGRTTAGSLOT'' [AStr host, AStr port, AInt (30 * 1000), AInt slotId] w of
        (Inl err, c1, w1) \<Rightarrow> (Inl err, c1, w1)
      | (Inr reply, c1, w1) \<Rightarrow>
          (case Ints_of_Values L reply of
             Inl err \<Rightarrow> (Inl (InvalidResponse reply), c1, w1)
           | Inr p \<Rightarrow>
               if length p \<noteq> 2 then (Inl (InvalidResponse reply), c1, w1)
               else if p ! 0 \<noteq> 0 then (Inl (MigrateFailed slotId reply), c1, w1)
               else (Inr (p ! 1), c1, w1)))"

text \<open>\<^verbatim>\<open>GetInfo\<close>, lines 96 to 116; the loop over the lines of the text carries the map.\<close>

fun GetInfo_loop :: "lib \<Rightarrow> string list \<Rightarrow> (string \<rightharpoonup> string) \<Rightarrow> (string \<rightharpoonup> string)" where
  "GetInfo_loop L [] info = info"
| "GetInfo_loop L (line # lines) info =
     (let kv = strings_SplitN2 line (CHR '':'') in
      if length kv \<noteq> 2 then GetInfo_loop L lines info
      else
        (let key = strings_TrimSpace L (kv ! 0) in
         if key \<noteq> [] then GetInfo_loop L lines (info(key \<mapsto> strings_TrimSpace L (kv ! 1)))
         else GetInfo_loop L lines info))"

definition GetInfo :: "lib \<Rightarrow> RedisClient \<Rightarrow> world \<Rightarrow> (error + (string \<rightharpoonup> string)) \<times> RedisClient \<times> world" where
  "GetInfo L c w =
     (case command c ''INFO'' [] w of
        (Inl err, c1, w1) \<Rightarrow> (Inl err, c1, w1)
      | (Inr reply, c1, w1) \<Rightarrow>
          (case redis_String L reply None of
             Inl err \<Rightarrow> (Inl (Trace err), c1, w1)
           | Inr text \<Rightarrow> (Inr (GetInfo_loop L (strings_Split text (CHR 0x0A)) Map.empty), c1, w1)))"

text \<open>A missing key of a Go \<^verbatim>\<open>map[string]string\<close> reads as the empty string.\<close>

definition index_map :: "(string \<rightharpoonup> string) \<Rightarrow> string \<Rightarrow> string" where
  "index_map m k = (case m k of None \<Rightarrow> [] | Some v \<Rightarrow> v)"

text \<open>\<^verbatim>\<open>GetMaster\<close>, lines 118 to 129.\<close>

definition GetMaster :: "lib \<Rightarrow> RedisClient \<Rightarrow> world \<Rightarrow> (error + string) \<times> RedisClient \<times> world" where
  "GetMaster L c w =
     (case GetInfo L c w of
        (Inl err, c1, w1) \<Rightarrow> (Inl err, c1, w1)
      | (Inr info, c1, w1) \<Rightarrow>
          (let host = index_map info ''master_host'';
               port = index_map info ''master_port''
           in if host = [] \<and> port = [] then (Inr [], c1, w1)
              else (Inr (net_JoinHostPort L host port), c1, w1)))"

text \<open>\<^verbatim>\<open>GetMaxMemory\<close>, lines 131 to 148.\<close>

definition GetMaxMemory :: "lib \<Rightarrow> RedisClient \<Rightarrow> world \<Rightarrow> (error + float64) \<times> RedisClient \<times> world" where
  "GetMaxMemory L c w =
     (case command c ''CONFIG'' [AStr ''GET'', AStr ''maxmemory''] w of
        (Inl err, c1, w1) \<Rightarrow> (Inl err, c1, w1)
      | (Inr reply, c1, w1) \<Rightarrow>
          (case redis_Values L reply None of
             Inl err \<Rightarrow> (Inl (InvalidResponse reply), c1, w1)
           | Inr p \<Rightarrow>
               if length p \<noteq> 2 then (Inl (InvalidResponse reply), c1, w1)
               else
                 (case redis_Int L (p ! 1) None of
                    Inl err \<Rightarrow> (Inl (InvalidResponse reply), c1, w1)
                  | Inr v \<Rightarrow>
                      if v \<noteq> 0 then (Inr (float64_of_int v), c1, w1)
                      else (Inr PosInf, c1, w1))))"

text \<open>
  \<^verbatim>\<open>SlaveOf(master)\<close>, lines 150 to 177. The result is the error, \<open>None\<close> for \<^verbatim>\<open>nil\<close>.
\<close>

definition SlaveOf :: "lib \<Rightarrow> RedisClient \<Rightarrow> string \<Rightarrow> world \<Rightarrow> error option \<times> RedisClient \<times> world" where
  "SlaveOf L c master w =
     (if master = addr c then (Some SlaveOfItself, c, w)
      else if master = [] then
        (case command c ''SLAVEOF'' [AStr ''NO'', AStr ''ONE''] w of
           (Inl err, c1, w1) \<Rightarrow> (Some err, c1, w1)
         | (Inr _, c1, w1) \<Rightarrow> (None, c1, w1))
      else
        (case GetMaster L c w of
           (Inl err, c1, w1) \<Rightarrow> (Some err, c1, w1)
         | (Inr m, c1, w1) \<Rightarrow>
             if m = master then (None, c1, w1)
             else
               (case net_SplitHostPort L master of
                  Inl err \<Rightarrow> (Some (Trace err), c1, w1)
                | Inr (host, port) \<Rightarrow>
                    (case command c1 ''SLAVEOF'' [AStr host, AStr port] (log_Warnf master (addr c1) w1) of
                       (Inl err, c2, w2) \<Rightarrow> (Some err, c2, w2)
                     | (Inr _, c2, w2) \<Rightarrow> (None, c2, w2)))))"

subsection \<open>RedisPool\<close>

text \<open>
  The registry \<^verbatim>\<open>pool map[string]*list.List\<close> is an association list with one entry per
  key. The order of its entries is the order in which a \<^verbatim>\<open>range\<close> over the map visits
  them; Go does not fix that order, and the theorems below hold for every order. The mutex
  is held for the whole of every operation, so each operation is one atomic step.
\<close>

type_synonym registry = "(string \<times> RedisClient list) list"

record RedisPool =
  auth :: string
  pool :: registry
  timeout :: duration
  closed :: bool

definition NewRedisPool :: "string \<Rightarrow> duration \<Rightarrow> RedisPool" where
  "NewRedisPool au tmo = \<lparr>auth = au, pool = [], timeout = tmo, closed = False\<rparr>"

text \<open>
  \<^verbatim>\<open>isRecyclable\<close>, lines 198 to 207. \<^verbatim>\<open>p.timeout / 2\<close> is Go's division of integers, which
  rounds towards zero: \<open>sdiv\<close>. The clock is read only on the last branch.
\<close>

definition isRecyclable :: "RedisPool \<Rightarrow> RedisClient \<Rightarrow> world \<Rightarrow> bool \<times> world" where
  "isRecyclable p c w =
     (if LastErr c \<noteq> None then (False, w)
      else if timeout p = 0 then (True, w)
      else (case time_Now w of (now, w1) \<Rightarrow> (now < LastUse c + timeout p sdiv 2, w1)))"

text \<open>
  The three loops \<^verbatim>\<open>for i := list.Len(); i != 0; i--\<close> take the front element with
  \<^verbatim>\<open>list.Remove(list.Front())\<close>. On an empty list \<^verbatim>\<open>Front\<close> returns nil and \<^verbatim>\<open>Remove\<close> panics:
  that is the result \<open>None\<close>.
\<close>

text \<open>\<^verbatim>\<open>Close\<close>, lines 209 to 225: the inner loop, the loop over the map, the method.\<close>

fun Close_list :: "nat \<Rightarrow> RedisClient list \<Rightarrow> world \<Rightarrow> (RedisClient list \<times> world) option" where
  "Close_list 0 l w = Some (l, w)"
| "Close_list (Suc i) [] w = None"
| "Close_list (Suc i) (c # l) w = Close_list i l (conn_Close (conn c) w)"

fun Close_range :: "registry \<Rightarrow> registry \<Rightarrow> world \<Rightarrow> (registry \<times> world) option" where
  "Close_range [] m w = Some (m, w)"
| "Close_range ((a, l) # es) m w =
     (case Close_list (length l) l w of
        None \<Rightarrow> None
      | Some (l', w1) \<Rightarrow> Close_range es (AList.delete a m) w1)"

definition Close :: "RedisPool \<Rightarrow> world \<Rightarrow> (error option \<times> RedisPool \<times> world) option" where
  "Close p w =
     (if closed p then Some (None, p, w)
      else
        (case Close_range (pool p) (pool p) w of
           None \<Rightarrow> None
         | Some (m, w1) \<Rightarrow> Some (None, p\<lparr>pool := m, closed := True\<rparr>, w1)))"

text \<open>
  \<^verbatim>\<open>Cleanup\<close>, lines 227 to 248. The inner loop pushes a recyclable client to the back of
  the list it was taken from; the list object stays the value of its key, so the map is
  updated with the list as the loop leaves it, or the key is deleted.
\<close>

fun Cleanup_list :: "RedisPool \<Rightarrow> nat \<Rightarrow> RedisClient list \<Rightarrow> world \<Rightarrow> (RedisClient list \<times> world) option" where
  "Cleanup_list p 0 l w = Some (l, w)"
| "Cleanup_list p (Suc i) [] w = None"
| "Cleanup_list p (Suc i) (c # l) w =
     (case isRecyclable p c w of
        (ok, w1) \<Rightarrow>
          if ok then Cleanup_list p i (l @ [c]) w1
          else Cleanup_list p i l (conn_Close (conn c) w1))"

fun Cleanup_range :: "RedisPool \<Rightarrow> registry \<Rightarrow> registry \<Rightarrow> world \<Rightarrow> (registry \<times> world) option" where
  "Cleanup_range p [] m w = Some (m, w)"
| "Cleanup_range p ((a, l) # es) m w =
     (case Cleanup_list p (length l) l w of
        None \<Rightarrow> None
      | Some (l', w1) \<Rightarrow>
          if length l' = 0 then Cleanup_range p es (AList.delete a m) w1
          else Cleanup_range p es (AList.update a l' m) w1)"

definition Cleanup :: "RedisPool \<Rightarrow> world \<Rightarrow> (error option \<times> RedisPool \<times> world) option" where
  "Cleanup p w =
     (if closed p then Some (Some ErrClosedRedisPool, p, w)
      else
        (case Cleanup_range p (pool p) (pool p) w of
           None \<Rightarrow> None
         | Some (m, w1) \<Rightarrow> Some (None, p\<lparr>pool := m\<rparr>, w1)))"

text \<open>
  \<^verbatim>\<open>GetClient\<close>, lines 250 to 268. The loop returns the client it found, if any, with the
  list as it leaves it; the list stays in the map, also when it is empty.
\<close>

fun GetClient_list :: "RedisPool \<Rightarrow> nat \<Rightarrow> RedisClient list \<Rightarrow> world \<Rightarrow> (RedisClient option \<times> RedisClient list \<times> world) option" where
  "GetClient_list p 0 l w = Some (None, l, w)"
| "GetClient_list p (Suc i) [] w = None"
| "GetClient_list p (Suc i) (c # l) w =
     (case isRecyclable p c w of
        (ok, w1) \<Rightarrow>
          if ok then Some (Some c, l, w1)
          else GetClient_list p i l (conn_Close (conn c) w1))"

definition GetClient :: "RedisPool \<Rightarrow> string \<Rightarrow> world \<Rightarrow> ((error + RedisClient) \<times> RedisPool \<times> world) option" where
  "GetClient p a w =
     (if closed p then Some (Inl ErrClosedRedisPool, p, w)
      else
        (case map_of (pool p) a of
           None \<Rightarrow>
             (case NewRedisClient a (auth p) (timeout p) w of (r, w2) \<Rightarrow> Some (r, p, w2))
         | Some l \<Rightarrow>
             (case GetClient_list p (length l) l w of
                None \<Rightarrow> None
              | Some (Some c, l', w1) \<Rightarrow> Some (Inr c, p\<lparr>pool := AList.update a l' (pool p)\<rparr>, w1)
              | Some (None, l', w1) \<Rightarrow>
                  (case NewRedisClient a (auth p) (timeout p) w1 of
                     (r, w2) \<Rightarrow> Some (r, p\<lparr>pool := AList.update a l' (pool p)\<rparr>, w2)))))"

text \<open>
  \<^verbatim>\<open>PutClient\<close>, lines 270 to 283. The method has no result. \<^verbatim>\<open>||\<close> does not evaluate
  \<^verbatim>\<open>isRecyclable\<close> on a closed pool.
\<close>

definition PutClient :: "RedisPool \<Rightarrow> RedisClient \<Rightarrow> world \<Rightarrow> RedisPool \<times> world" where
  "PutClient p client w =
     (if closed p then (p, conn_Close (conn client) w)
      else
        (case isRecyclable p client w of
           (ok, w1) \<Rightarrow>
             if \<not> ok then (p, conn_Close (conn client) w1)
             else
               (case map_of (pool p) (addr client) of
                  None \<Rightarrow> (p\<lparr>pool := AList.update (addr client) [client] (pool p)\<rparr>, w1)
                | Some cache \<Rightarrow> (p\<lparr>pool := AList.update (addr client) (client # cache) (pool p)\<rparr>, w1))))"

section \<open>The vocabulary of the properties\<close>

text \<open>
  The recyclability predicate in the words of the specification, at the current time \<open>now\<close>:
  the client has no recorded error, and the idle timeout is zero or \<open>LastUse\<close> plus half the
  idle timeout is still in the future.
\<close>

definition recyclable_at :: "RedisPool \<Rightarrow> time \<Rightarrow> RedisClient \<Rightarrow> bool" where
  "recyclable_at p now c \<longleftrightarrow> LastErr c = None \<and> (timeout p = 0 \<or> now < LastUse c + timeout p sdiv 2)"

text \<open>
  \<open>clock_within w n t0 t1\<close>: the next \<open>n\<close> readings of the clock lie between \<open>t0\<close> and \<open>t1\<close>.
  A loop of the pool reads the clock at most once for every client it examines, so with
  \<open>n\<close> the number of these clients, \<open>t0\<close> and \<open>t1\<close> bound the time while the operation runs.
  With \<open>t0 = t1\<close> the clock does not advance during the operation.
\<close>

definition clock_within :: "world \<Rightarrow> nat \<Rightarrow> time \<Rightarrow> time \<Rightarrow> bool" where
  "clock_within w n t0 t1 \<longleftrightarrow>
     (\<forall>k. reads w \<le> k \<and> k < reads w + n \<longrightarrow> t0 \<le> clock w k \<and> clock w k \<le> t1)"

text \<open>
  \<open>only_closes w cs w'\<close>: the world \<open>w'\<close> is \<open>w\<close> after some readings of the clock and after
  closing the connections \<open>cs\<close>, in this order; nothing was sent, dialed or logged.
  \<open>advances w cs k w'\<close> says the same with at most \<open>k\<close> readings.
\<close>

definition only_closes :: "world \<Rightarrow> conn list \<Rightarrow> world \<Rightarrow> bool" where
  "only_closes w cs w' \<longleftrightarrow>
     (\<exists>n. w' = w\<lparr>reads := reads w + n, closed_conns := closed_conns w @ cs\<rparr>)"

definition advances :: "world \<Rightarrow> conn list \<Rightarrow> nat \<Rightarrow> world \<Rightarrow> bool" where
  "advances w cs k w' \<longleftrightarrow>
     (\<exists>n. n \<le> k \<and> w' = w\<lparr>reads := reads w + n, closed_conns := closed_conns w @ cs\<rparr>)"

text \<open>All idle clients of a registry, and the invariant of the specification: a key has one
  entry, and no connection is held twice.\<close>

definition registry_clients :: "registry \<Rightarrow> RedisClient list" where
  "registry_clients reg = concat (map snd reg)"

definition wf_registry :: "registry \<Rightarrow> bool" where
  "wf_registry reg \<longleftrightarrow> distinct (map fst reg) \<and> distinct (map conn (registry_clients reg))"

text \<open>
  Cleanup in the words of the specification: of every list keep the recyclable members, in
  their order, and remove the entries whose list becomes empty.
\<close>

definition Cleanup_spec :: "RedisPool \<Rightarrow> time \<Rightarrow> registry \<Rightarrow> registry" where
  "Cleanup_spec p now reg =
     filter (\<lambda>(a, l). l \<noteq> []) (map (\<lambda>(a, l). (a, filter (recyclable_at p now) l)) reg)"

text \<open>
  When the clock advances while a loop runs, each client is judged at the reading taken for
  it. \<open>verdicts_within p t0 t1 xs vs\<close>: \<open>vs\<close> holds one verdict for each client of \<open>xs\<close>, and
  each verdict is one that a reading between \<open>t0\<close> and \<open>t1\<close> can give: a client judged
  recyclable is recyclable at \<open>t0\<close>, and a client recyclable at \<open>t1\<close> is judged recyclable.
  \<open>kept_by\<close> and \<open>dropped_by\<close> are the clients with the one and the other verdict, in their
  order; \<open>Cleanup_by\<close> and \<open>closed_by\<close> are the registry that is left and the connections
  that are closed, given the verdicts for every list.
\<close>

definition verdicts_within :: "RedisPool \<Rightarrow> time \<Rightarrow> time \<Rightarrow> RedisClient list \<Rightarrow> bool list \<Rightarrow> bool" where
  "verdicts_within p t0 t1 xs vs \<longleftrightarrow>
     list_all2 (\<lambda>c v. (v \<longrightarrow> recyclable_at p t0 c) \<and> (recyclable_at p t1 c \<longrightarrow> v)) xs vs"

definition kept_by :: "bool list \<Rightarrow> RedisClient list \<Rightarrow> RedisClient list" where
  "kept_by vs xs = map fst (filter (\<lambda>(c, v). v) (zip xs vs))"

definition dropped_by :: "bool list \<Rightarrow> RedisClient list \<Rightarrow> RedisClient list" where
  "dropped_by vs xs = map fst (filter (\<lambda>(c, v). \<not> v) (zip xs vs))"

definition Cleanup_by :: "bool list list \<Rightarrow> registry \<Rightarrow> registry" where
  "Cleanup_by vss reg =
     filter (\<lambda>(a, l). l \<noteq> []) (map (\<lambda>((a, l), vs). (a, kept_by vs l)) (zip reg vss))"

definition closed_by :: "bool list list \<Rightarrow> registry \<Rightarrow> conn list" where
  "closed_by vss reg = concat (map (\<lambda>((a, l), vs). map conn (dropped_by vs l)) (zip reg vss))"

text \<open>
  \<^verbatim>\<open>func (p *RedisPool) PutClient(client *RedisClient)\<close> is declared without a result:
  whatever it does, its caller receives no error.
\<close>

definition PutClient_error :: "RedisPool \<Rightarrow> RedisClient \<Rightarrow> world \<Rightarrow> error option" where
  "PutClient_error p client w = None"

section \<open>Concrete instances\<close>

text \<open>
  One library to run the operations on concrete replies: \<open>lib0\<close> decodes the reply types
  that the connection library documents for each decoder, trims ASCII white space and
  splits an address at its last colon. A world \<open>world_of rs now\<close> answers the commands
  sent with \<open>rs\<close>, one after the other, then with an error; its clock shows \<open>now\<close>.
\<close>

fun digits_value :: "string \<Rightarrow> int \<Rightarrow> int option" where
  "digits_value [] acc = Some acc"
| "digits_value (c # cs) acc =
     (let d = of_char c in
      if (48::int) \<le> d \<and> d \<le> 57 then digits_value cs (10 * acc + (d - 48)) else None)"

definition parse_int :: "string \<Rightarrow> int option" where
  "parse_int s =
     (case s of
        [] \<Rightarrow> None
      | c # cs \<Rightarrow>
          if c = CHR ''-'' then (if cs = [] then None else map_option uminus (digits_value cs 0))
          else digits_value s 0)"

definition lib0_Values :: "reply \<Rightarrow> error option \<Rightarrow> error + reply list" where
  "lib0_Values r e =
     (case e of
        Some err \<Rightarrow> Inl err
      | None \<Rightarrow>
          (case r of
             RArray vs \<Rightarrow> Inr vs
           | RError s \<Rightarrow> Inl (LibError s)
           | _ \<Rightarrow> Inl (LibError ''unexpected type'')))"

definition lib0_Int :: "reply \<Rightarrow> error option \<Rightarrow> error + int" where
  "lib0_Int r e =
     (case e of
        Some err \<Rightarrow> Inl err
      | None \<Rightarrow>
          (case r of
             RInt n \<Rightarrow> Inr n
           | RBulk s \<Rightarrow>
               (case parse_int s of
                  None \<Rightarrow> Inl (LibError ''invalid syntax'')
                | Some n \<Rightarrow>
                    if - (2 ^ 63) \<le> n \<and> n < 2 ^ 63 then Inr n
                    else Inl (LibError ''value out of range''))
           | RError s \<Rightarrow> Inl (LibError s)
           | _ \<Rightarrow> Inl (LibError ''unexpected type'')))"

fun lib0_scan :: "reply list \<Rightarrow> error + int list" where
  "lib0_scan [] = Inr []"
| "lib0_scan (v # vs) =
     (case lib0_Int v None of
        Inl err \<Rightarrow> Inl err
      | Inr n \<Rightarrow> (case lib0_scan vs of Inl err \<Rightarrow> Inl err | Inr ns \<Rightarrow> Inr (n # ns)))"

definition lib0_Ints :: "reply \<Rightarrow> error option \<Rightarrow> error + int list" where
  "lib0_Ints r e = (case lib0_Values r e of Inl err \<Rightarrow> Inl err | Inr vs \<Rightarrow> lib0_scan vs)"

definition lib0_String :: "reply \<Rightarrow> error option \<Rightarrow> error + string" where
  "lib0_String r e =
     (case e of
        Some err \<Rightarrow> Inl err
      | None \<Rightarrow>
          (case r of
             RBulk s \<Rightarrow> Inr s
           | RStatus s \<Rightarrow> Inr s
           | RError s \<Rightarrow> Inl (LibError s)
           | _ \<Rightarrow> Inl (LibError ''unexpected type'')))"

definition is_space :: "char \<Rightarrow> bool" where
  "is_space c = (c = CHR '' '' \<or> c = CHR 0x09 \<or> c = CHR 0x0A \<or> c = CHR 0x0B \<or> c = CHR 0x0C \<or> c = CHR 0x0D)"

definition lib0_TrimSpace :: "string \<Rightarrow> string" where
  "lib0_TrimSpace s = rev (dropWhile is_space (rev (dropWhile is_space s)))"

definition lib0_JoinHostPort :: "string \<Rightarrow> string \<Rightarrow> string" where
  "lib0_JoinHostPort host port =
     (if CHR '':'' \<in> set host then ''['' @ host @ '']:'' @ port else host @ '':'' @ port)"

definition lib0_SplitHostPort :: "string \<Rightarrow> error + (string \<times> string)" where
  "lib0_SplitHostPort s =
     (if CHR '':'' \<in> set s
      then Inr (rev (tl (dropWhile (\<lambda>x. x \<noteq> CHR '':'') (rev s))), rev (takeWhile (\<lambda>x. x \<noteq> CHR '':'') (rev s)))
      else Inl (LibError ''missing port in address''))"

definition lib0 :: lib where
  "lib0 = \<lparr>redis_Values = lib0_Values, redis_Ints = lib0_Ints, redis_Int = lib0_Int,
            redis_String = lib0_String, strings_TrimSpace = lib0_TrimSpace,
            net_JoinHostPort = lib0_JoinHostPort, net_SplitHostPort = lib0_SplitHostPort\<rparr>"

definition world_of :: "(error + reply) list \<Rightarrow> time \<Rightarrow> world" where
  "world_of rs now =
     \<lparr>clock = (\<lambda>k. now), reads = 0,
      respond = (\<lambda>k. if k < length rs then rs ! k else Inl (LibError ''EOF'')),
      sent = [], dial_error = (\<lambda>k. None), dialed = [], closed_conns = [], warnings = []\<rparr>"

definition client_of :: "conn \<Rightarrow> string \<Rightarrow> time \<Rightarrow> RedisClient" where
  "client_of cn a t = \<lparr>conn = cn, addr = a, LastErr = None, LastUse = t\<rparr>"

definition failed_client :: "conn \<Rightarrow> string \<Rightarrow> time \<Rightarrow> RedisClient" where
  "failed_client cn a t = \<lparr>conn = cn, addr = a, LastErr = Some (Trace (LibError ''EOF'')), LastUse = t\<rparr>"

text \<open>Two texts as a node answers \<^verbatim>\<open>INFO\<close>: a replica of \<open>10.0.0.1:6379\<close>, and a master.\<close>

definition info_replica :: string where
  "info_replica = ''role:slave'' @ [CHR 0x0A] @ ''master_host:10.0.0.1'' @ [CHR 0x0A] @ ''master_port:6379'' @ [CHR 0x0A]"

definition info_master :: string where
  "info_master = ''role:master'' @ [CHR 0x0A] @ ''master_host:'' @ [CHR 0x0A] @ ''master_port:'' @ [CHR 0x0A]"

text \<open>
  A pool with timeout 300 and two addresses. At time 1000 the clients 1 and 4 of the first
  address are recyclable; client 2 has been idle for too long, clients 3 and 5 have failed.
\<close>

definition pool0 :: RedisPool where
  "pool0 =
     \<lparr>auth = ''secret'',
      pool = [(''10.0.0.1:6379'',
                 [client_of 2 ''10.0.0.1:6379'' 800, failed_client 3 ''10.0.0.1:6379'' 990,
                  client_of 1 ''10.0.0.1:6379'' 900, client_of 4 ''10.0.0.1:6379'' 950]),
              (''10.0.0.2:6379'', [failed_client 5 ''10.0.0.2:6379'' 990])],
      timeout = 300, closed = False\<rparr>"

text \<open>The same world with a clock that advances by one at every reading.\<close>

definition ticking_world :: "(error + reply) list \<Rightarrow> time \<Rightarrow> world" where
  "ticking_world rs t = (world_of rs t)\<lparr>clock := (\<lambda>k. t + int k)\<rparr>"

section \<open>Properties\<close>

subsection \<open>A failed client stays failed\<close>

lemma commands_poisoned:
  "LastErr c \<noteq> None \<Longrightarrow> commands c calls w = (map (\<lambda>_. Inl ErrFailedRedisClient) calls, c, w)"
  by (induction calls) (auto simp: command_def)

text \<open>
  C1. On a client whose \<open>LastErr\<close> is set, \<open>command\<close> returns \<open>ErrFailedRedisClient\<close> and
  returns the client and the world as they were: nothing is sent, the clock is not read,
  \<open>LastErr\<close> and \<open>LastUse\<close> keep their values. The client is therefore in the same state
  before the next call, and every call of any sequence of calls has this result.
\<close>

theorem command_poisoned:
  "LastErr c \<noteq> None \<Longrightarrow>
     command c cmd args w = (Inl ErrFailedRedisClient, c, w) \<and>
     commands c calls w = (map (\<lambda>_. Inl ErrFailedRedisClient) calls, c, w)"
  by (simp add: commands_poisoned) (simp add: command_def)

theorem command_poisoned_witness:
  "LastErr (failed_client 7 ''10.0.0.1:6379'' 900) \<noteq> None \<and>
   command (failed_client 7 ''10.0.0.1:6379'' 900) ''INFO'' [] (world_of [Inr (RBulk ''role:master'')] 1000) =
     (Inl ErrFailedRedisClient, failed_client 7 ''10.0.0.1:6379'' 900, world_of [Inr (RBulk ''role:master'')] 1000) \<and>
   commands (failed_client 7 ''10.0.0.1:6379'' 900) [(''INFO'', []), (''SLOTSINFO'', [])] (world_of [Inr (RBulk ''role:master'')] 1000) =
     ([Inl ErrFailedRedisClient, Inl ErrFailedRedisClient], failed_client 7 ''10.0.0.1:6379'' 900, world_of [Inr (RBulk ''role:master'')] 1000)"
proof -
  have h: "LastErr (failed_client 7 ''10.0.0.1:6379'' 900) \<noteq> None"
    by (simp add: failed_client_def)
  show ?thesis
    using h command_poisoned [OF h] by simp
qed

subsection \<open>Recyclability\<close>

lemma sdiv_two:
  "2 * ((t::int) sdiv 2) = (if even t then t else t - sgn t)"
proof (cases "0 \<le> t")
  case True
  then show ?thesis
    by (auto simp: signed_divide_int_def sgn_if elim!: evenE oddE)
next
  case False
  then have "2 * (t sdiv 2) = - (2 * ((- t) div 2))"
    by (simp add: signed_divide_int_def sgn_if)
  also have "\<dots> = (if even t then t else t + 1)"
    by (auto elim!: evenE oddE) presburger+
  finally show ?thesis using False by (simp add: sgn_if)
qed

text \<open>
  C3. \<open>isRecyclable\<close> answers yes exactly when the client has no recorded error and either
  the pool's timeout is zero or \<open>LastUse\<close> plus half the timeout is later than the clock
  reading it takes. A client with a recorded error is never recyclable; with timeout zero
  a client without error always is. Half the timeout is the duration \<^verbatim>\<open>p.timeout / 2\<close>: a
  whole number of nanoseconds, the exact half of an even timeout and the half rounded
  towards zero of an odd one.
\<close>

theorem isRecyclable_iff:
  "(fst (isRecyclable p c w) \<longleftrightarrow>
      LastErr c = None \<and> (timeout p = 0 \<or> clock w (reads w) < LastUse c + timeout p sdiv 2)) \<and>
   (LastErr c \<noteq> None \<longrightarrow> \<not> fst (isRecyclable p c w)) \<and>
   (LastErr c = None \<and> timeout p = 0 \<longrightarrow> fst (isRecyclable p c w)) \<and>
   2 * (timeout p sdiv 2) = (if even (timeout p) then timeout p else timeout p - sgn (timeout p))"
  by (simp add: isRecyclable_def time_Now_def sdiv_two)

theorem isRecyclable_iff_witness:
  "fst (isRecyclable (NewRedisPool ''secret'' 300) (client_of 7 ''10.0.0.1:6379'' 900) (world_of [] 1000)) \<and>
   \<not> fst (isRecyclable (NewRedisPool ''secret'' 300) (client_of 7 ''10.0.0.1:6379'' 850) (world_of [] 1000)) \<and>
   \<not> fst (isRecyclable (NewRedisPool ''secret'' 0) (failed_client 7 ''10.0.0.1:6379'' 999) (world_of [] 1000)) \<and>
   fst (isRecyclable (NewRedisPool ''secret'' 0) (client_of 7 ''10.0.0.1:6379'' 1) (world_of [] 1000))"
  using isRecyclable_iff [of "NewRedisPool ''secret'' 300" "client_of 7 ''10.0.0.1:6379'' 900" "world_of [] 1000"]
    isRecyclable_iff [of "NewRedisPool ''secret'' 300" "client_of 7 ''10.0.0.1:6379'' 850" "world_of [] 1000"]
    isRecyclable_iff [of "NewRedisPool ''secret'' 0" "failed_client 7 ''10.0.0.1:6379'' 999" "world_of [] 1000"]
    isRecyclable_iff [of "NewRedisPool ''secret'' 0" "client_of 7 ''10.0.0.1:6379'' 1" "world_of [] 1000"]
  by (simp add: NewRedisPool_def client_of_def failed_client_def world_of_def signed_divide_int_def)

subsection \<open>What a command does when the client has not failed\<close>

lemma command_reply:
  "LastErr c = None \<Longrightarrow> respond w (length (sent w)) = Inr reply \<Longrightarrow>
   command c cmd args w =
     (Inr reply, c\<lparr>LastUse := clock w (reads w)\<rparr>,
      w\<lparr>sent := sent w @ [(conn c, cmd, args)], reads := Suc (reads w)\<rparr>)"
  by (simp add: command_def conn_Do_def time_Now_def)

lemma command_transport_error:
  "LastErr c = None \<Longrightarrow> respond w (length (sent w)) = Inl err \<Longrightarrow>
   command c cmd args w =
     (Inl (Trace err), c\<lparr>LastErr := Some (Trace err)\<rparr>, w\<lparr>sent := sent w @ [(conn c, cmd, args)]\<rparr>)"
  by (simp add: command_def conn_Do_def)


subsection \<open>Shard migration\<close>

text \<open>
  C9. On a client that has not failed, when the network answers the command with
  \<open>reply\<close>: the command sent is \<^verbatim>\<open>SLOTSMGRTTAGSLOT host port 30000 slotId\<close>; a reply that
  decodes to the two integers \<open>(0, moved)\<close> yields \<open>moved\<close> and no error; a reply that decodes
  to \<open>(status, moved)\<close> with a status other than zero yields the migration failure carrying
  the shard id and the reply; a reply that does not decode to two integers (the decoder
  fails, or the list has another length) yields the error \<^verbatim>\<open>invalid response\<close> carrying
  the reply.
\<close>

theorem SlotsMgrtTagSlot_reply:
  assumes "LastErr c = None" and "respond w (length (sent w)) = Inr reply"
  shows "sent (snd (snd (SlotsMgrtTagSlot L c host port slotId w))) =
           sent w @ [(conn c, ''SLOTSMGRTTAGSLOT'', [AStr host, AStr port, AInt 30000, AInt slotId])] \<and>
         (Ints_of_Values L reply = Inr [0, moved] \<longrightarrow>
            fst (SlotsMgrtTagSlot L c host port slotId w) = Inr moved) \<and>
         (Ints_of_Values L reply = Inr [status, moved] \<and> status \<noteq> 0 \<longrightarrow>
            fst (SlotsMgrtTagSlot L c host port slotId w) = Inl (MigrateFailed slotId reply)) \<and>
         ((\<forall>s n. Ints_of_Values L reply \<noteq> Inr [s, n]) \<longrightarrow>
            fst (SlotsMgrtTagSlot L c host port slotId w) = Inl (InvalidResponse reply))"
proof -
  have two: "length p = 2 \<Longrightarrow> p = [p ! 0, p ! 1]" for p :: "int list"
    by (cases p; cases "tl p") auto
  show ?thesis
    using assms
    apply (simp add: SlotsMgrtTagSlot_def command_reply split: sum.splits)
    apply (auto dest: two)
    done
qed

theorem SlotsMgrtTagSlot_reply_witness:
  "fst (SlotsMgrtTagSlot lib0 (client_of 7 ''10.0.0.1:6379'' 900) ''10.0.0.2'' ''6379'' 5
          (world_of [Inr (RArray [RInt 0, RInt 17])] 1000)) = Inr 17 \<and>
   fst (SlotsMgrtTagSlot lib0 (client_of 7 ''10.0.0.1:6379'' 900) ''10.0.0.2'' ''6379'' 5
          (world_of [Inr (RArray [RInt 1, RInt 0])] 1000)) = Inl (MigrateFailed 5 (RArray [RInt 1, RInt 0])) \<and>
   fst (SlotsMgrtTagSlot lib0 (client_of 7 ''10.0.0.1:6379'' 900) ''10.0.0.2'' ''6379'' 5
          (world_of [Inr (RArray [RInt 0])] 1000)) = Inl (InvalidResponse (RArray [RInt 0])) \<and>
   fst (SlotsMgrtTagSlot lib0 (client_of 7 ''10.0.0.1:6379'' 900) ''10.0.0.2'' ''6379'' 5
          (world_of [Inr (RStatus ''OK'')] 1000)) = Inl (InvalidResponse (RStatus ''OK'')) \<and>
   sent (snd (snd (SlotsMgrtTagSlot lib0 (client_of 7 ''10.0.0.1:6379'' 900) ''10.0.0.2'' ''6379'' 5
          (world_of [Inr (RArray [RInt 0, RInt 17])] 1000)))) =
     [(7, ''SLOTSMGRTTAGSLOT'', [AStr ''10.0.0.2'', AStr ''6379'', AInt 30000, AInt 5])]"
proof -
  have c: "LastErr (client_of 7 ''10.0.0.1:6379'' 900) = None" "conn (client_of 7 ''10.0.0.1:6379'' 900) = 7"
    by (simp_all add: client_of_def)
  have r: "respond (world_of [Inr x] 1000) (length (sent (world_of [Inr x] 1000))) = Inr x"
      "sent (world_of [Inr x] 1000) = []" for x
    by (simp_all add: world_of_def)
  have d: "Ints_of_Values lib0 (RArray [RInt 0, RInt 17]) = Inr [0, 17]"
      "Ints_of_Values lib0 (RArray [RInt 1, RInt 0]) = Inr [1, 0]"
      "Ints_of_Values lib0 (RArray [RInt 0]) = Inr [0]"
      "Ints_of_Values lib0 (RStatus ''OK'') = Inl (LibError ''unexpected type'')"
    by (simp_all add: Ints_of_Values_def lib0_def lib0_Values_def lib0_Ints_def lib0_Int_def)
  show ?thesis
    using SlotsMgrtTagSlot_reply [OF c(1) r(1), where L = lib0 and reply = "RArray [RInt 0, RInt 17]" and moved = 17 and status = 0]
      SlotsMgrtTagSlot_reply [OF c(1) r(1), where L = lib0 and reply = "RArray [RInt 1, RInt 0]" and moved = 0 and status = 1]
      SlotsMgrtTagSlot_reply [OF c(1) r(1), where L = lib0 and reply = "RArray [RInt 0]"]
      SlotsMgrtTagSlot_reply [OF c(1) r(1), where L = lib0 and reply = "RStatus ''OK''"]
    by (simp add: c r d)
qed

subsection \<open>The memory ceiling\<close>

lemma f64_ulp_pos: "0 < f64_ulp a"
  by (induction a rule: f64_ulp.induct) (subst f64_ulp.simps, simp)

lemma f64_ulp_le: "1 \<le> a \<Longrightarrow> f64_ulp a \<le> a"
proof (induction a rule: f64_ulp.induct)
  case (1 a)
  show ?case
  proof (cases "a < 2 ^ 53")
    case True
    with "1.prems" show ?thesis by (subst f64_ulp.simps) simp
  next
    case False
    then have "1 \<le> a div 2" by simp
    with "1.IH" False have "f64_ulp (a div 2) \<le> a div 2" by simp
    then show ?thesis using False by (subst f64_ulp.simps) simp
  qed
qed

lemma float64_of_int_exact: "\<bar>v\<bar> \<le> 2 ^ 53 \<Longrightarrow> float64_of_int v = F64 v"
proof -
  assume a: "\<bar>v\<bar> \<le> 2 ^ 53"
  show ?thesis
  proof (cases "\<bar>v\<bar> < 2 ^ 53")
    case True
    then have "f64_ulp \<bar>v\<bar> = 1" by (subst f64_ulp.simps) simp
    then show ?thesis by (simp add: float64_of_int_def Let_def mult_sgn_abs)
  next
    case False
    with a have e: "\<bar>v\<bar> = 2 ^ 53" by simp
    have u: "f64_ulp 9007199254740992 = 2" by (subst f64_ulp.simps, subst f64_ulp.simps) simp
    show ?thesis using mult_sgn_abs [of v]
      by (simp add: float64_of_int_def Let_def e u)
  qed
qed

lemma float64_of_int_nonzero: "v \<noteq> 0 \<Longrightarrow> float64_of_int v \<noteq> F64 0"
proof -
  assume v: "v \<noteq> 0"
  define a where "a = \<bar>v\<bar>"
  define u where "u = f64_ulp a"
  define q where "q = (if u < 2 * (a mod u) \<or> (2 * (a mod u) = u \<and> odd (a div u)) then a div u + 1 else a div u)"
  have a1: "1 \<le> a" using v by (simp add: a_def)
  have u0: "0 < u" by (simp add: u_def f64_ulp_pos)
  have "u \<le> a" using a1 by (simp add: u_def f64_ulp_le)
  then have "1 \<le> a div u" using u0 zdiv_mono1 [of u a u] by simp
  then have "0 < q" by (simp add: q_def)
  then have "q * u \<noteq> 0" using u0 by simp
  then have "sgn v * (q * u) \<noteq> 0" using v by (simp add: sgn_if)
  moreover have "float64_of_int v = F64 (sgn v * (q * u))"
    by (simp add: float64_of_int_def Let_def a_def u_def q_def)
  ultimately show ?thesis by simp
qed



lemma float64_of_int_near:
  "\<exists>m. float64_of_int v = F64 m \<and> 2 * \<bar>m - v\<bar> \<le> f64_ulp \<bar>v\<bar>"
proof -
  define a where "a = \<bar>v\<bar>"
  define u where "u = f64_ulp a"
  define q where "q = a div u"
  define r where "r = a mod u"
  define q' where "q' = (if u < 2 * r \<or> (2 * r = u \<and> odd q) then q + 1 else q)"
  have u0: "0 < u" by (simp add: u_def f64_ulp_pos)
  have a: "a = q * u + r" by (simp add: q_def r_def)
  have r: "0 \<le> r" "r < u" using u0 by (simp_all add: r_def)
  have "q' * u - a = (if u < 2 * r \<or> (2 * r = u \<and> odd q) then u - r else - r)"
    by (simp add: q'_def a algebra_simps)
  then have n: "2 * \<bar>q' * u - a\<bar> \<le> u"
    using r by (auto split: if_splits)
  have f: "float64_of_int v = F64 (sgn v * (q' * u))"
    by (simp add: float64_of_int_def Let_def a_def u_def q_def r_def q'_def)
  have "sgn v * (q' * u) - v = sgn v * (q' * u - a)"
    using mult_sgn_abs [of v] by (simp add: a_def algebra_simps)
  then have "\<bar>sgn v * (q' * u) - v\<bar> = \<bar>sgn v\<bar> * \<bar>q' * u - a\<bar>"
    by (simp add: abs_mult)
  also have "\<dots> \<le> \<bar>q' * u - a\<bar>"
    by (simp add: sgn_if)
  finally have "2 * \<bar>sgn v * (q' * u) - v\<bar> \<le> u"
    using n by simp
  then show ?thesis
    using f by (auto simp: u_def a_def)
qed

text \<open>
  C8, as the claim states it, fails on a large value: the raw \<^verbatim>\<open>maxmemory\<close> value
  \<open>9007199254740993\<close> (that is \<open>2^53 + 1\<close>) is decoded to the integer \<open>9007199254740993\<close> and
  returned as \<^verbatim>\<open>float64(v)\<close>, which is the double \<open>9007199254740992\<close>, not the value itself.
\<close>

theorem GetMaxMemory_exact_counterexample:
  "redis_Int lib0 (RBulk ''9007199254740993'') None = Inr 9007199254740993 \<and>
   fst (GetMaxMemory lib0 (client_of 7 ''10.0.0.1:6379'' 900)
          (world_of [Inr (RArray [RBulk ''maxmemory'', RBulk ''9007199254740993''])] 1000)) =
     Inr (F64 9007199254740992) \<and>
   fst (GetMaxMemory lib0 (client_of 7 ''10.0.0.1:6379'' 900)
          (world_of [Inr (RArray [RBulk ''maxmemory'', RBulk ''9007199254740993''])] 1000)) \<noteq>
     Inr (F64 9007199254740993)"
proof -
  have i: "lib0_Int (RBulk ''9007199254740993'') None = Inr 9007199254740993"
    by (simp add: lib0_Int_def parse_int_def)
  have u: "f64_ulp 9007199254740993 = 2"
    by (subst f64_ulp.simps, subst f64_ulp.simps) simp
  have f: "float64_of_int 9007199254740993 = F64 9007199254740992"
    by (simp add: float64_of_int_def Let_def u)
  show ?thesis
    by (simp add: GetMaxMemory_def command_def conn_Do_def time_Now_def client_of_def world_of_def
        lib0_def lib0_Values_def i f)
qed


text \<open>
  C8, amended. On a client that has not failed, when the reply decodes to two values whose
  second decodes to the integer \<open>v\<close>: the command sent is \<^verbatim>\<open>CONFIG GET maxmemory\<close>; \<open>v = 0\<close>
  yields positive infinity; a \<open>v\<close> other than zero of magnitude at most \<open>2^53\<close> yields
  exactly \<open>v\<close>; every \<open>v\<close> other than zero yields \<^verbatim>\<open>float64(v)\<close>, which is neither zero nor
  infinite and lies at most half the distance between neighbouring doubles from \<open>v\<close>.
\<close>

theorem GetMaxMemory_decodes:
  assumes "LastErr c = None" and "respond w (length (sent w)) = Inr reply"
    and "redis_Values L reply None = Inr [k, x]" and "redis_Int L x None = Inr v"
  shows "sent (snd (snd (GetMaxMemory L c w))) = sent w @ [(conn c, ''CONFIG'', [AStr ''GET'', AStr ''maxmemory''])] \<and>
         (v = 0 \<longrightarrow> fst (GetMaxMemory L c w) = Inr PosInf) \<and>
         (v \<noteq> 0 \<and> \<bar>v\<bar> \<le> 2 ^ 53 \<longrightarrow> fst (GetMaxMemory L c w) = Inr (F64 v)) \<and>
         (v \<noteq> 0 \<longrightarrow> fst (GetMaxMemory L c w) = Inr (float64_of_int v) \<and>
                     float64_of_int v \<noteq> F64 0 \<and> float64_of_int v \<noteq> PosInf \<and>
                     (\<exists>m. float64_of_int v = F64 m \<and> 2 * \<bar>m - v\<bar> \<le> f64_ulp \<bar>v\<bar>))"
proof -
  have r: "fst (GetMaxMemory L c w) = (if v \<noteq> 0 then Inr (float64_of_int v) else Inr PosInf)"
    using assms by (simp add: GetMaxMemory_def command_reply)
  have s: "sent (snd (snd (GetMaxMemory L c w))) = sent w @ [(conn c, ''CONFIG'', [AStr ''GET'', AStr ''maxmemory''])]"
    using assms by (simp add: GetMaxMemory_def command_reply)
  have n: "v \<noteq> 0 \<Longrightarrow> float64_of_int v \<noteq> PosInf"
    by (simp add: float64_of_int_def Let_def)
  show ?thesis
    using r s n float64_of_int_nonzero [of v] float64_of_int_exact [of v] float64_of_int_near [of v]
    by simp
qed

theorem GetMaxMemory_decodes_witness:
  "fst (GetMaxMemory lib0 (client_of 7 ''10.0.0.1:6379'' 900)
          (world_of [Inr (RArray [RBulk ''maxmemory'', RBulk ''0''])] 1000)) = Inr PosInf \<and>
   fst (GetMaxMemory lib0 (client_of 7 ''10.0.0.1:6379'' 900)
          (world_of [Inr (RArray [RBulk ''maxmemory'', RBulk ''1073741824''])] 1000)) = Inr (F64 1073741824) \<and>
   sent (snd (snd (GetMaxMemory lib0 (client_of 7 ''10.0.0.1:6379'' 900)
          (world_of [Inr (RArray [RBulk ''maxmemory'', RBulk ''0''])] 1000)))) =
     [(7, ''CONFIG'', [AStr ''GET'', AStr ''maxmemory''])]"
proof -
  have c: "LastErr (client_of 7 ''10.0.0.1:6379'' 900) = None" "conn (client_of 7 ''10.0.0.1:6379'' 900) = 7"
    by (simp_all add: client_of_def)
  have r: "respond (world_of [Inr x] 1000) (length (sent (world_of [Inr x] 1000))) = Inr x"
      "sent (world_of [Inr x] 1000) = []" for x
    by (simp_all add: world_of_def)
  have v: "redis_Values lib0 (RArray [a, b]) None = Inr [a, b]" for a b
    by (simp add: lib0_def lib0_Values_def)
  have i: "redis_Int lib0 (RBulk ''0'') None = Inr 0"
      "redis_Int lib0 (RBulk ''1073741824'') None = Inr 1073741824"
    by (simp_all add: lib0_def lib0_Int_def parse_int_def)
  show ?thesis
    using GetMaxMemory_decodes [OF c(1) r(1) v i(1)] GetMaxMemory_decodes [OF c(1) r(1) v i(2)]
    by (simp add: c r)
qed

subsection \<open>Which errors poison a client\<close>




subsection \<open>Replication control\<close>

lemma GetMaster_ok:
  assumes "GetMaster L c w = (Inr m, c1, w1)"
  shows "LastErr c = None \<and> c1 = c\<lparr>LastUse := clock w (reads w)\<rparr> \<and>
         w1 = w\<lparr>sent := sent w @ [(conn c, ''INFO'', [])], reads := Suc (reads w)\<rparr>"
  using assms
  by (auto simp: GetMaster_def GetInfo_def command_def conn_Do_def time_Now_def Let_def
      split: if_splits sum.splits prod.splits)


text \<open>
  C7. \<open>SlaveOf L c master\<close>:
  \<^item> when \<open>master\<close> is the client's own address, fails with the self-replication error, the
    client and the world unchanged;
  \<^item> otherwise, when \<open>master\<close> is empty, does nothing but call \<open>command\<close> with
    \<^verbatim>\<open>SLAVEOF NO ONE\<close> and return its error, if any: on a client that has not failed the
    command is sent, and nothing else is (no query of the current master comes first);
  \<^item> otherwise queries the current master; when the answer is \<open>master\<close> itself, returns
    success after the one \<^verbatim>\<open>INFO\<close> command, and no \<^verbatim>\<open>SLAVEOF\<close> is sent;
  \<^item> when the answer differs and \<open>master\<close> splits into \<open>host\<close> and \<open>port\<close>, sends
    \<^verbatim>\<open>SLAVEOF host port\<close> after the \<^verbatim>\<open>INFO\<close> and returns the error of that send, if any.
\<close>

theorem SlaveOf_cases:
  "(master = addr c \<longrightarrow> SlaveOf L c master w = (Some SlaveOfItself, c, w)) \<and>
   (master \<noteq> addr c \<and> master = [] \<longrightarrow>
      SlaveOf L c master w =
        (case command c ''SLAVEOF'' [AStr ''NO'', AStr ''ONE''] w of
           (Inl err, c', w') \<Rightarrow> (Some err, c', w')
         | (Inr reply, c', w') \<Rightarrow> (None, c', w'))) \<and>
   (master \<noteq> addr c \<and> master = [] \<and> LastErr c = None \<longrightarrow>
      sent (snd (snd (SlaveOf L c master w))) = sent w @ [(conn c, ''SLAVEOF'', [AStr ''NO'', AStr ''ONE''])] \<and>
      fst (SlaveOf L c master w) =
        (case respond w (length (sent w)) of Inl err \<Rightarrow> Some (Trace err) | Inr reply \<Rightarrow> None)) \<and>
   (master \<noteq> addr c \<and> master \<noteq> [] \<and> GetMaster L c w = (Inr m, c1, w1) \<and> m = master \<longrightarrow>
      SlaveOf L c master w = (None, c1, w1) \<and>
      sent w1 = sent w @ [(conn c, ''INFO'', [])]) \<and>
   (master \<noteq> addr c \<and> master \<noteq> [] \<and> GetMaster L c w = (Inr m, c1, w1) \<and> m \<noteq> master \<and>
    net_SplitHostPort L master = Inr (host, port) \<longrightarrow>
      sent (snd (snd (SlaveOf L c master w))) =
        sent w @ [(conn c, ''INFO'', []), (conn c, ''SLAVEOF'', [AStr host, AStr port])] \<and>
      fst (SlaveOf L c master w) =
        (case respond w (Suc (length (sent w))) of Inl err \<Rightarrow> Some (Trace err) | Inr reply \<Rightarrow> None))"
proof -
  have a: "master = addr c \<Longrightarrow> SlaveOf L c master w = (Some SlaveOfItself, c, w)"
    by (simp add: SlaveOf_def)
  have b: "master \<noteq> addr c \<Longrightarrow> master = [] \<Longrightarrow> LastErr c = None \<Longrightarrow>
      sent (snd (snd (SlaveOf L c master w))) = sent w @ [(conn c, ''SLAVEOF'', [AStr ''NO'', AStr ''ONE''])] \<and>
      fst (SlaveOf L c master w) =
        (case respond w (length (sent w)) of Inl err \<Rightarrow> Some (Trace err) | Inr reply \<Rightarrow> None)"
    by (cases "respond w (length (sent w))")
      (simp_all add: SlaveOf_def command_reply command_transport_error)
  have b0: "master \<noteq> addr c \<Longrightarrow> master = [] \<Longrightarrow>
      SlaveOf L c master w =
        (case command c ''SLAVEOF'' [AStr ''NO'', AStr ''ONE''] w of
           (Inl err, c', w') \<Rightarrow> (Some err, c', w')
         | (Inr reply, c', w') \<Rightarrow> (None, c', w'))"
    by (simp add: SlaveOf_def)
  have d: "master \<noteq> addr c \<Longrightarrow> master \<noteq> [] \<Longrightarrow> GetMaster L c w = (Inr m, c1, w1) \<Longrightarrow> m = master \<Longrightarrow>
      SlaveOf L c master w = (None, c1, w1) \<and> sent w1 = sent w @ [(conn c, ''INFO'', [])]"
    using GetMaster_ok [of L c w m c1 w1] by (simp add: SlaveOf_def)
  have e: "master \<noteq> addr c \<Longrightarrow> master \<noteq> [] \<Longrightarrow> GetMaster L c w = (Inr m, c1, w1) \<Longrightarrow> m \<noteq> master \<Longrightarrow>
    net_SplitHostPort L master = Inr (host, port) \<Longrightarrow>
      sent (snd (snd (SlaveOf L c master w))) =
        sent w @ [(conn c, ''INFO'', []), (conn c, ''SLAVEOF'', [AStr host, AStr port])] \<and>
      fst (SlaveOf L c master w) =
        (case respond w (Suc (length (sent w))) of Inl err \<Rightarrow> Some (Trace err) | Inr reply \<Rightarrow> None)"
    using GetMaster_ok [of L c w m c1 w1]
    by (cases "respond w (Suc (length (sent w)))")
      (simp_all add: SlaveOf_def command_def conn_Do_def time_Now_def log_Warnf_def)
  show ?thesis
    using a b0 b d e by blast
qed


lemma GetMaster_replica:
  "GetMaster lib0 (client_of 7 ''10.0.0.2:6379'' 900) (world_of [Inr (RBulk info_replica)] 1000) =
     (Inr ''10.0.0.1:6379'', (client_of 7 ''10.0.0.2:6379'' 900)\<lparr>LastUse := 1000\<rparr>,
      (world_of [Inr (RBulk info_replica)] 1000)\<lparr>sent := [(7, ''INFO'', [])], reads := 1\<rparr>)"
  by (simp add: GetMaster_def GetInfo_def command_def conn_Do_def time_Now_def client_of_def world_of_def
      lib0_def lib0_String_def info_replica_def strings_SplitN2_def lib0_TrimSpace_def is_space_def
      index_map_def lib0_JoinHostPort_def Let_def)

lemma GetMaster_master:
  "GetMaster lib0 (client_of 7 ''10.0.0.2:6379'' 900) (world_of [Inr (RBulk info_master), Inr (RStatus ''OK'')] 1000) =
     (Inr [], (client_of 7 ''10.0.0.2:6379'' 900)\<lparr>LastUse := 1000\<rparr>,
      (world_of [Inr (RBulk info_master), Inr (RStatus ''OK'')] 1000)\<lparr>sent := [(7, ''INFO'', [])], reads := 1\<rparr>)"
  by (simp add: GetMaster_def GetInfo_def command_def conn_Do_def time_Now_def client_of_def world_of_def
      lib0_def lib0_String_def info_master_def strings_SplitN2_def lib0_TrimSpace_def is_space_def
      index_map_def lib0_JoinHostPort_def Let_def)

theorem SlaveOf_cases_witness:
  "SlaveOf lib0 (client_of 7 ''10.0.0.2:6379'' 900) ''10.0.0.2:6379'' (world_of [] 1000) =
     (Some SlaveOfItself, client_of 7 ''10.0.0.2:6379'' 900, world_of [] 1000) \<and>
   sent (snd (snd (SlaveOf lib0 (client_of 7 ''10.0.0.2:6379'' 900) [] (world_of [Inr (RStatus ''OK'')] 1000)))) =
     [(7, ''SLAVEOF'', [AStr ''NO'', AStr ''ONE''])] \<and>
   fst (SlaveOf lib0 (client_of 7 ''10.0.0.2:6379'' 900) [] (world_of [Inr (RStatus ''OK'')] 1000)) = None \<and>
   SlaveOf lib0 (client_of 7 ''10.0.0.2:6379'' 900) ''10.0.0.1:6379'' (world_of [Inr (RBulk info_replica)] 1000) =
     (None, (client_of 7 ''10.0.0.2:6379'' 900)\<lparr>LastUse := 1000\<rparr>,
      (world_of [Inr (RBulk info_replica)] 1000)\<lparr>sent := [(7, ''INFO'', [])], reads := 1\<rparr>) \<and>
   sent (snd (snd (SlaveOf lib0 (client_of 7 ''10.0.0.2:6379'' 900) ''10.0.0.1:6379''
          (world_of [Inr (RBulk info_master), Inr (RStatus ''OK'')] 1000)))) =
     [(7, ''INFO'', []), (7, ''SLAVEOF'', [AStr ''10.0.0.1'', AStr ''6379''])] \<and>
   fst (SlaveOf lib0 (client_of 7 ''10.0.0.2:6379'' 900) ''10.0.0.1:6379''
          (world_of [Inr (RBulk info_master), Inr (RStatus ''OK'')] 1000)) = None"
proof -
  have c: "LastErr (client_of 7 ''10.0.0.2:6379'' 900) = None" "conn (client_of 7 ''10.0.0.2:6379'' 900) = 7"
      "addr (client_of 7 ''10.0.0.2:6379'' 900) = ''10.0.0.2:6379''"
    by (simp_all add: client_of_def)
  have r: "respond (world_of [Inr x] 1000) 0 = Inr x" "respond (world_of [Inr x, Inr y] 1000) (Suc 0) = Inr y"
      "sent (world_of rs t) = []" for x y rs t
    by (simp_all add: world_of_def)
  have sp: "net_SplitHostPort lib0 ''10.0.0.1:6379'' = Inr (''10.0.0.1'', ''6379'')"
    by (simp add: lib0_def lib0_SplitHostPort_def)
  note t = SlaveOf_cases [where L = lib0 and c = "client_of 7 ''10.0.0.2:6379'' 900"]
  show ?thesis
    using t [where master = "''10.0.0.2:6379''" and w = "world_of [] 1000"]
      t [where master = "[]" and w = "world_of [Inr (RStatus ''OK'')] 1000"]
      t [where master = "''10.0.0.1:6379''" and w = "world_of [Inr (RBulk info_replica)] 1000"
          and m = "''10.0.0.1:6379''", simplified GetMaster_replica]
      t [where master = "''10.0.0.1:6379''" and w = "world_of [Inr (RBulk info_master), Inr (RStatus ''OK'')] 1000"
          and m = "[]" and host = "''10.0.0.1''" and port = "''6379''", simplified GetMaster_master]
    by (simp add: c r sp command_reply world_of_def)
qed

subsection \<open>The pool: what an operation does to the world\<close>

lemma only_closes_refl: "only_closes w [] w"
  unfolding only_closes_def by (rule exI [of _ 0]) simp

lemma only_closesD:
  "only_closes w cs w1 \<Longrightarrow>
     closed_conns w1 = closed_conns w @ cs \<and> sent w1 = sent w \<and> dialed w1 = dialed w \<and>
     warnings w1 = warnings w \<and> clock w1 = clock w \<and> respond w1 = respond w \<and>
     dial_error w1 = dial_error w \<and> reads w \<le> reads w1"
  by (auto simp: only_closes_def)

lemma advances_only_closes: "advances w cs k w1 \<Longrightarrow> only_closes w cs w1"
  by (auto simp: advances_def only_closes_def)

lemma advances_refl: "advances w [] 0 w"
  by (simp add: advances_def)

lemma advances_Close: "advances w [cn] 0 (conn_Close cn w)"
  by (simp add: advances_def conn_Close_def)

lemma advances_mono:
  assumes "advances w cs k w1" and "k \<le> j"
  shows "advances w cs j w1"
proof -
  from assms(1) obtain n where "n \<le> k" "w1 = w\<lparr>reads := reads w + n, closed_conns := closed_conns w @ cs\<rparr>"
    by (auto simp: advances_def)
  then have "n \<le> j \<and> w1 = w\<lparr>reads := reads w + n, closed_conns := closed_conns w @ cs\<rparr>"
    using assms(2) by simp
  then show ?thesis unfolding advances_def by blast
qed

lemma advances_trans:
  assumes "advances w cs k w1" and "advances w1 ds j w2"
  shows "advances w (cs @ ds) (k + j) w2"
proof -
  from assms obtain n m where n: "n \<le> k" "w1 = w\<lparr>reads := reads w + n, closed_conns := closed_conns w @ cs\<rparr>"
    and m: "m \<le> j" "w2 = w1\<lparr>reads := reads w1 + m, closed_conns := closed_conns w1 @ ds\<rparr>"
    by (auto simp: advances_def)
  have "n + m \<le> k + j \<and> w2 = w\<lparr>reads := reads w + (n + m), closed_conns := closed_conns w @ (cs @ ds)\<rparr>"
    using n m by simp
  then show ?thesis unfolding advances_def by blast
qed

lemma clock_within_mono: "clock_within w n t0 t1 \<Longrightarrow> m \<le> n \<Longrightarrow> clock_within w m t0 t1"
  by (auto simp: clock_within_def)

lemma clock_within_advances:
  "clock_within w (k + n) t0 t1 \<Longrightarrow> advances w cs k w1 \<Longrightarrow> clock_within w1 n t0 t1"
  by (auto simp: clock_within_def advances_def)

text \<open>Every world is within some bounds: the hypothesis on the clock excludes no run.\<close>

lemma clock_within_exists: "\<exists>t0 t1. clock_within w n t0 t1"
proof (induction n)
  case 0
  show ?case by (simp add: clock_within_def)
next
  case (Suc n)
  then obtain t0 t1 where b: "clock_within w n t0 t1" by blast
  define r where "r = clock w (reads w + n)"
  have "clock_within w (Suc n) (min t0 r) (max t1 r)"
    unfolding clock_within_def
  proof (intro allI impI)
    fix k
    assume k: "reads w \<le> k \<and> k < reads w + Suc n"
    show "min t0 r \<le> clock w k \<and> clock w k \<le> max t1 r"
    proof (cases "k = reads w + n")
      case True
      then show ?thesis by (simp add: r_def)
    next
      case False
      with k have "reads w \<le> k \<and> k < reads w + n" by simp
      with b have "t0 \<le> clock w k \<and> clock w k \<le> t1" by (simp add: clock_within_def)
      then show ?thesis by (simp add: min_def max_def)
    qed
  qed
  then show ?case by blast
qed

lemma recyclable_at_earlier: "recyclable_at p t c \<Longrightarrow> t' \<le> t \<Longrightarrow> recyclable_at p t' c"
  by (auto simp: recyclable_at_def)

text \<open>
  One call of \<open>isRecyclable\<close> while the clock is between \<open>t0\<close> and \<open>t1\<close>: its verdict is one
  of \<open>verdicts_within\<close>, and it reads the clock at most once.
\<close>

lemma isRecyclable_window:
  assumes "clock_within w (Suc n) t0 t1"
  shows "fst (isRecyclable p c w) \<Longrightarrow> recyclable_at p t0 c"
    and "recyclable_at p t1 c \<Longrightarrow> fst (isRecyclable p c w)"
    and "advances w [] 1 (snd (isRecyclable p c w))"
proof -
  have r: "t0 \<le> clock w (reads w)" "clock w (reads w) \<le> t1"
    using assms by (simp_all add: clock_within_def)
  have v: "fst (isRecyclable p c w) = recyclable_at p (clock w (reads w)) c"
    by (simp add: isRecyclable_def recyclable_at_def time_Now_def)
  show "fst (isRecyclable p c w) \<Longrightarrow> recyclable_at p t0 c"
    using v r(1) recyclable_at_earlier by blast
  show "recyclable_at p t1 c \<Longrightarrow> fst (isRecyclable p c w)"
    using v r(2) recyclable_at_earlier by blast
  have "snd (isRecyclable p c w) = w\<lparr>reads := reads w + 0, closed_conns := closed_conns w @ []\<rparr> \<or>
        snd (isRecyclable p c w) = w\<lparr>reads := reads w + 1, closed_conns := closed_conns w @ []\<rparr>"
    by (simp add: isRecyclable_def time_Now_def)
  then show "advances w [] 1 (snd (isRecyclable p c w))"
    unfolding advances_def by (metis le_refl zero_le)
qed

text \<open>When the clock does not advance, the verdicts are the recyclability predicate.\<close>

lemma verdicts_frozen:
  "verdicts_within p now now xs vs \<Longrightarrow>
     kept_by vs xs = filter (recyclable_at p now) xs \<and>
     dropped_by vs xs = filter (\<lambda>c. \<not> recyclable_at p now c) xs"
  unfolding verdicts_within_def
  by (induction xs vs rule: list_all2_induct) (auto simp: kept_by_def dropped_by_def)

lemma registry_verdicts_frozen:
  "list_all2 (\<lambda>e vs. verdicts_within p now now (snd e) vs) reg vss \<Longrightarrow>
     Cleanup_by vss reg = Cleanup_spec p now reg \<and>
     closed_by vss reg = map conn (filter (\<lambda>c. \<not> recyclable_at p now c) (registry_clients reg))"
proof (induction reg vss rule: list_all2_induct)
  case Nil
  then show ?case by (simp add: Cleanup_by_def Cleanup_spec_def closed_by_def registry_clients_def)
next
  case (Cons e reg vs vss)
  obtain a l where e: "e = (a, l)" by (cases e)
  from Cons.hyps(1) have "kept_by vs l = filter (recyclable_at p now) l"
    and "dropped_by vs l = filter (\<lambda>c. \<not> recyclable_at p now c) l"
    using verdicts_frozen [of p now l vs] by (simp_all add: e)
  then show ?case
    using Cons.IH by (simp add: e Cleanup_by_def Cleanup_spec_def closed_by_def registry_clients_def)
qed

subsection \<open>The loops of the pool\<close>

lemma Close_list_all:
  "Close_list (length l) l w = Some ([], w\<lparr>closed_conns := closed_conns w @ map conn l\<rparr>)"
  by (induction l arbitrary: w) (simp_all add: conn_Close_def)

lemma Close_range_all:
  "Close_range es m w =
     Some (fold (\<lambda>(a, l). AList.delete a) es m,
           w\<lparr>closed_conns := closed_conns w @ registry_clients_conns\<rparr>)"
  if "registry_clients_conns = map conn (registry_clients es)"
  using that
  by (induction es arbitrary: m w registry_clients_conns)
     (auto simp: Close_list_all registry_clients_def)

lemma delete_all_keys:
  "fst ` set m \<subseteq> fst ` set es \<Longrightarrow> fold (\<lambda>(a, l). AList.delete a) es m = []"
proof (induction es arbitrary: m)
  case Nil
  then show ?case by simp
next
  case (Cons e es)
  obtain a l where e: "e = (a, l)" by (cases e)
  have "fst ` set (AList.delete a m) \<subseteq> fst ` set es"
    using Cons.prems by (auto simp: e AList.delete_eq)
  then show ?case using Cons.IH by (simp add: e)
qed

lemma delete_middle:
  "a \<notin> fst ` set pre \<Longrightarrow> a \<notin> fst ` set post \<Longrightarrow> AList.delete a (pre @ (a, l) # post) = pre @ post"
proof -
  assume n: "a \<notin> fst ` set pre" "a \<notin> fst ` set post"
  have "AList.delete a (pre @ (a, l) # post) = AList.delete a pre @ AList.delete a post"
    by (simp add: AList.delete_eq)
  then show ?thesis using n by simp
qed

lemma update_middle:
  "a \<notin> fst ` set pre \<Longrightarrow> AList.update a v (pre @ (a, l) # post) = pre @ (a, v) # post"
  by (induction pre) auto

text \<open>
  The inner loop of \<open>Cleanup\<close>, started on the list \<open>xs\<close> that it will examine followed by
  the clients \<open>acc\<close> it has pushed back: it ends with \<open>acc\<close> followed by the clients of \<open>xs\<close>
  it judged recyclable, and has closed the others.
\<close>

lemma Cleanup_list_window:
  "clock_within w (length xs) t0 t1 \<Longrightarrow>
   \<exists>vs w1. verdicts_within p t0 t1 xs vs \<and>
          Cleanup_list p (length xs) (xs @ acc) w = Some (acc @ kept_by vs xs, w1) \<and>
          advances w (map conn (dropped_by vs xs)) (length xs) w1"
proof (induction xs arbitrary: acc w)
  case Nil
  have "verdicts_within p t0 t1 [] []" by (simp add: verdicts_within_def)
  then show ?case using advances_refl [of w] by (auto simp: kept_by_def dropped_by_def)
next
  case (Cons c xs)
  define v where "v = fst (isRecyclable p c w)"
  define w0 where "w0 = snd (isRecyclable p c w)"
  have cw: "clock_within w (Suc (length xs)) t0 t1" using Cons.prems by simp
  have r: "isRecyclable p c w = (v, w0)" by (simp add: v_def w0_def)
  have j: "(v \<longrightarrow> recyclable_at p t0 c) \<and> (recyclable_at p t1 c \<longrightarrow> v)"
    using isRecyclable_window(1,2) [OF cw, of p c] by (auto simp: v_def)
  have o: "advances w [] 1 w0"
    using isRecyclable_window(3) [OF cw, of p c] by (simp add: w0_def)
  have s0: "clock_within w0 (length xs) t0 t1"
    using clock_within_advances [of w 1 "length xs" t0 t1 "[]" w0] cw o by simp
  show ?case
  proof (cases v)
    case True
    from Cons.IH [OF s0, of "acc @ [c]"] obtain vs w1 where
      a: "verdicts_within p t0 t1 xs vs"
      and b: "Cleanup_list p (length xs) (xs @ acc @ [c]) w0 = Some ((acc @ [c]) @ kept_by vs xs, w1)"
      and d: "advances w0 (map conn (dropped_by vs xs)) (length xs) w1"
      by auto
    have "verdicts_within p t0 t1 (c # xs) (True # vs)"
      using a j True by (simp add: verdicts_within_def)
    moreover have "Cleanup_list p (length (c # xs)) ((c # xs) @ acc) w = Some (acc @ kept_by (True # vs) (c # xs), w1)"
      using b r True by (simp add: kept_by_def)
    moreover have "advances w (map conn (dropped_by (True # vs) (c # xs))) (length (c # xs)) w1"
      using advances_trans [OF o d] by (simp add: dropped_by_def)
    ultimately show ?thesis by blast
  next
    case False
    have o1: "advances w [conn c] 1 (conn_Close (conn c) w0)"
      using advances_trans [OF o advances_Close [of w0 "conn c"]] by simp
    have s1: "clock_within (conn_Close (conn c) w0) (length xs) t0 t1"
      using clock_within_advances [of w 1 "length xs" t0 t1 "[conn c]"] cw o1 by simp
    from Cons.IH [OF s1, of acc] obtain vs w1 where
      a: "verdicts_within p t0 t1 xs vs"
      and b: "Cleanup_list p (length xs) (xs @ acc) (conn_Close (conn c) w0) = Some (acc @ kept_by vs xs, w1)"
      and d: "advances (conn_Close (conn c) w0) (map conn (dropped_by vs xs)) (length xs) w1"
      by auto
    have "verdicts_within p t0 t1 (c # xs) (False # vs)"
      using a j False by (simp add: verdicts_within_def)
    moreover have "Cleanup_list p (length (c # xs)) ((c # xs) @ acc) w = Some (acc @ kept_by (False # vs) (c # xs), w1)"
      using b r False by (simp add: kept_by_def)
    moreover have "advances w (map conn (dropped_by (False # vs) (c # xs))) (length (c # xs)) w1"
      using advances_trans [OF o1 d] by (simp add: dropped_by_def)
    ultimately show ?thesis by blast
  qed
qed

text \<open>
  The loop of \<open>Cleanup\<close> over the map, with the entries \<open>pre\<close> done and the entries \<open>es\<close> to
  do: the keys are left in their places, so the map at the end is \<open>pre\<close> followed by what
  is left of \<open>es\<close>.
\<close>

lemma Cleanup_range_window:
  "clock_within w (length (registry_clients es)) t0 t1 \<Longrightarrow> distinct (map fst (pre @ es)) \<Longrightarrow>
   \<exists>vss w1. list_all2 (\<lambda>e vs. verdicts_within p t0 t1 (snd e) vs) es vss \<and>
           Cleanup_range p es (pre @ es) w = Some (pre @ Cleanup_by vss es, w1) \<and>
           advances w (closed_by vss es) (length (registry_clients es)) w1"
proof (induction es arbitrary: pre w)
  case Nil
  then show ?case using advances_refl [of w] by (simp add: Cleanup_by_def closed_by_def registry_clients_def)
next
  case (Cons e es)
  obtain a l where e: "e = (a, l)" by (cases e)
  have n: "length (registry_clients (e # es)) = length l + length (registry_clients es)"
    by (simp add: e registry_clients_def)
  have na: "a \<notin> fst ` set pre" "a \<notin> fst ` set es"
    using Cons.prems(2) by (auto simp: e)
  have cl: "clock_within w (length l) t0 t1"
    using Cons.prems(1) n clock_within_mono [of w _ t0 t1 "length l"] by simp
  from Cleanup_list_window [OF cl, of p "[]"] obtain vs w0 where
    v: "verdicts_within p t0 t1 l vs"
    and l: "Cleanup_list p (length l) l w = Some (kept_by vs l, w0)"
    and o: "advances w (map conn (dropped_by vs l)) (length l) w0"
    by auto
  have s0: "clock_within w0 (length (registry_clients es)) t0 t1"
    using clock_within_advances [OF _ o] Cons.prems(1) n by simp
  show ?case
  proof (cases "kept_by vs l = []")
    case True
    have d: "distinct (map fst (pre @ es))"
      using Cons.prems(2) by (simp add: e)
    from Cons.IH [OF s0 d] obtain vss w1 where
      a: "list_all2 (\<lambda>e vs. verdicts_within p t0 t1 (snd e) vs) es vss"
      and b: "Cleanup_range p es (pre @ es) w0 = Some (pre @ Cleanup_by vss es, w1)"
      and c: "advances w0 (closed_by vss es) (length (registry_clients es)) w1"
      by auto
    have "list_all2 (\<lambda>e vs. verdicts_within p t0 t1 (snd e) vs) (e # es) (vs # vss)"
      using a v by (simp add: e)
    moreover have "Cleanup_range p (e # es) (pre @ e # es) w = Some (pre @ Cleanup_by (vs # vss) (e # es), w1)"
      using True l b na by (simp add: e delete_middle Cleanup_by_def)
    moreover have "advances w (closed_by (vs # vss) (e # es)) (length (registry_clients (e # es))) w1"
      using advances_trans [OF o c] n by (simp add: e closed_by_def)
    ultimately show ?thesis by blast
  next
    case False
    have d: "distinct (map fst ((pre @ [(a, kept_by vs l)]) @ es))"
      using Cons.prems(2) by (simp add: e)
    from Cons.IH [OF s0 d] obtain vss w1 where
      a: "list_all2 (\<lambda>e vs. verdicts_within p t0 t1 (snd e) vs) es vss"
      and b: "Cleanup_range p es ((pre @ [(a, kept_by vs l)]) @ es) w0 = Some ((pre @ [(a, kept_by vs l)]) @ Cleanup_by vss es, w1)"
      and c: "advances w0 (closed_by vss es) (length (registry_clients es)) w1"
      by auto
    have "list_all2 (\<lambda>e vs. verdicts_within p t0 t1 (snd e) vs) (e # es) (vs # vss)"
      using a v by (simp add: e)
    moreover have "Cleanup_range p (e # es) (pre @ e # es) w = Some (pre @ Cleanup_by (vs # vss) (e # es), w1)"
      using False l b na by (simp add: e update_middle Cleanup_by_def)
    moreover have "advances w (closed_by (vs # vss) (e # es)) (length (registry_clients (e # es))) w1"
      using advances_trans [OF o c] n by (simp add: e closed_by_def)
    ultimately show ?thesis by blast
  qed
qed

text \<open>
  The loop of \<open>GetClient\<close>: it returns the first client it judges recyclable, with the list
  behind it, or it runs through the whole list; the clients before are closed.
\<close>

lemma GetClient_list_window:
  "clock_within w (length l) t0 t1 \<Longrightarrow>
   (\<exists>ds c rest w1.
       l = ds @ c # rest \<and> (\<forall>d\<in>set ds. \<not> recyclable_at p t1 d) \<and> recyclable_at p t0 c \<and>
       GetClient_list p (length l) l w = Some (Some c, rest, w1) \<and>
       advances w (map conn ds) (length l) w1) \<or>
   ((\<forall>d\<in>set l. \<not> recyclable_at p t1 d) \<and>
    (\<exists>w1. GetClient_list p (length l) l w = Some (None, [], w1) \<and>
          advances w (map conn l) (length l) w1))"
proof (induction l arbitrary: w)
  case Nil
  then show ?case using advances_refl [of w] by auto
next
  case (Cons x l)
  define v where "v = fst (isRecyclable p x w)"
  define w0 where "w0 = snd (isRecyclable p x w)"
  have cw: "clock_within w (Suc (length l)) t0 t1" using Cons.prems by simp
  have r: "isRecyclable p x w = (v, w0)" by (simp add: v_def w0_def)
  have o: "advances w [] 1 w0"
    using isRecyclable_window(3) [OF cw, of p x] by (simp add: w0_def)
  show ?case
  proof (cases v)
    case True
    have "recyclable_at p t0 x"
      using isRecyclable_window(1) [OF cw, of p x] True by (simp add: v_def)
    moreover have "GetClient_list p (length (x # l)) (x # l) w = Some (Some x, l, w0)"
      using r True by simp
    moreover have "advances w (map conn []) (length (x # l)) w0"
      using advances_mono [OF o, of "length (x # l)"] by simp
    ultimately have "x # l = [] @ x # l \<and> (\<forall>d\<in>set []. \<not> recyclable_at p t1 d) \<and> recyclable_at p t0 x \<and>
       GetClient_list p (length (x # l)) (x # l) w = Some (Some x, l, w0) \<and>
       advances w (map conn []) (length (x # l)) w0"
      by simp
    then show ?thesis by blast
  next
    case False
    have nx: "\<not> recyclable_at p t1 x"
      using isRecyclable_window(2) [OF cw, of p x] False by (auto simp: v_def)
    have o1: "advances w [conn x] 1 (conn_Close (conn x) w0)"
      using advances_trans [OF o advances_Close [of w0 "conn x"]] by simp
    have s1: "clock_within (conn_Close (conn x) w0) (length l) t0 t1"
      using clock_within_advances [of w 1 "length l" t0 t1 "[conn x]"] cw o1 by simp
    have g: "GetClient_list p (length (x # l)) (x # l) w = GetClient_list p (length l) l (conn_Close (conn x) w0)"
      using r False by simp
    from Cons.IH [OF s1] show ?thesis
    proof
      assume "\<exists>ds c rest w1.
       l = ds @ c # rest \<and> (\<forall>d\<in>set ds. \<not> recyclable_at p t1 d) \<and> recyclable_at p t0 c \<and>
       GetClient_list p (length l) l (conn_Close (conn x) w0) = Some (Some c, rest, w1) \<and>
       advances (conn_Close (conn x) w0) (map conn ds) (length l) w1"
      then obtain ds c rest w1 where
        "l = ds @ c # rest" "\<forall>d\<in>set ds. \<not> recyclable_at p t1 d" "recyclable_at p t0 c"
        "GetClient_list p (length l) l (conn_Close (conn x) w0) = Some (Some c, rest, w1)"
        and a: "advances (conn_Close (conn x) w0) (map conn ds) (length l) w1"
        by blast
      then have "x # l = (x # ds) @ c # rest \<and> (\<forall>d\<in>set (x # ds). \<not> recyclable_at p t1 d) \<and> recyclable_at p t0 c \<and>
         GetClient_list p (length (x # l)) (x # l) w = Some (Some c, rest, w1) \<and>
         advances w (map conn (x # ds)) (length (x # l)) w1"
        using nx g advances_trans [OF o1 a] by simp
      then show ?thesis by blast
    next
      assume h: "(\<forall>d\<in>set l. \<not> recyclable_at p t1 d) \<and>
        (\<exists>w1. GetClient_list p (length l) l (conn_Close (conn x) w0) = Some (None, [], w1) \<and>
              advances (conn_Close (conn x) w0) (map conn l) (length l) w1)"
      then obtain w1 where "GetClient_list p (length l) l (conn_Close (conn x) w0) = Some (None, [], w1)"
        and a: "advances (conn_Close (conn x) w0) (map conn l) (length l) w1"
        by blast
      then show ?thesis
        using h nx g advances_trans [OF o1 a] by auto
    qed
  qed
qed

text \<open>Taking clients from the front of a list of a well-formed registry.\<close>

lemma registry_split:
  "map_of reg a = Some l \<Longrightarrow> \<exists>pre post. reg = pre @ (a, l) # post \<and> a \<notin> fst ` set pre"
proof (induction reg)
  case Nil
  then show ?case by simp
next
  case (Cons e reg)
  show ?case
  proof (cases "fst e = a")
    case True
    with Cons.prems have "e = (a, l)" by (cases e) simp
    then have "e # reg = [] @ (a, l) # reg \<and> a \<notin> fst ` set []" by simp
    then show ?thesis by blast
  next
    case False
    with Cons.prems have "map_of reg a = Some l" by (cases e) simp
    from Cons.IH [OF this] obtain pre post where "reg = pre @ (a, l) # post" "a \<notin> fst ` set pre"
      by blast
    then have "e # reg = (e # pre) @ (a, l) # post \<and> a \<notin> fst ` set (e # pre)"
      using False by auto
    then show ?thesis by blast
  qed
qed

lemma distinct_map_middle:
  "distinct (map f (xs @ ts @ ys)) \<Longrightarrow> \<forall>d\<in>set ts. f d \<notin> f ` set (xs @ ys)"
  by auto

lemma taken_not_in_registry:
  assumes "map_of reg a = Some (taken @ rest)" and "wf_registry reg"
  shows "\<forall>d\<in>set taken. conn d \<notin> conn ` set (registry_clients (AList.update a rest reg))"
proof -
  from registry_split [OF assms(1)] obtain pre post where
    reg: "reg = pre @ (a, taken @ rest) # post" and n: "a \<notin> fst ` set pre"
    by blast
  have u: "AList.update a rest reg = pre @ (a, rest) # post"
    using n by (simp add: reg update_middle)
  have "distinct (map conn (concat (map snd pre) @ taken @ (rest @ concat (map snd post))))"
    using assms(2) by (simp add: wf_registry_def registry_clients_def reg)
  from distinct_map_middle [OF this]
  show ?thesis
    by (simp add: u registry_clients_def)
qed

subsection \<open>The registry keeps one entry per key\<close>

lemma Cleanup_range_distinct:
  "Cleanup_range p es m w = Some (m', w') \<Longrightarrow> distinct (map fst m) \<Longrightarrow> distinct (map fst m')"
proof (induction es arbitrary: m w)
  case Nil
  then show ?case by simp
next
  case (Cons e es)
  obtain a l where e: "e = (a, l)" by (cases e)
  from Cons.prems(1) have
    "(\<exists>w1. Cleanup_range p es (AList.delete a m) w1 = Some (m', w')) \<or>
     (\<exists>l1 w1. Cleanup_range p es (AList.update a l1 m) w1 = Some (m', w'))"
    by (auto simp: e split: option.splits if_splits)
  moreover have "distinct (map fst (AList.delete a m))" "distinct (map fst (AList.update a l1 m))" for l1
    using Cons.prems(2) by (simp_all add: AList.distinct_delete AList.distinct_update)
  ultimately show ?case using Cons.IH by blast
qed

lemma registry_keys_distinct:
  "distinct (map fst (pool (NewRedisPool au tmo)))"
  "distinct (map fst (pool p)) \<Longrightarrow> distinct (map fst (pool (fst (PutClient p c w))))"
  "distinct (map fst (pool p)) \<Longrightarrow> GetClient p a w = Some (r, p1, w1) \<Longrightarrow> distinct (map fst (pool p1))"
  "distinct (map fst (pool p)) \<Longrightarrow> Cleanup p w = Some (e, p1, w1) \<Longrightarrow> distinct (map fst (pool p1))"
  "Close p w = Some (e, p1, w1) \<Longrightarrow> closed p \<or> pool p1 = []"
proof -
  show "distinct (map fst (pool (NewRedisPool au tmo)))"
    by (simp add: NewRedisPool_def)
  show "distinct (map fst (pool p)) \<Longrightarrow> distinct (map fst (pool (fst (PutClient p c w))))"
    by (auto simp: PutClient_def AList.distinct_update split: prod.splits option.splits)
  show "distinct (map fst (pool p)) \<Longrightarrow> GetClient p a w = Some (r, p1, w1) \<Longrightarrow> distinct (map fst (pool p1))"
    by (auto simp: GetClient_def AList.distinct_update split: if_splits prod.splits option.splits)
  show "distinct (map fst (pool p)) \<Longrightarrow> Cleanup p w = Some (e, p1, w1) \<Longrightarrow> distinct (map fst (pool p1))"
    using Cleanup_range_distinct [of p "pool p" "pool p" w]
    by (auto simp: Cleanup_def split: if_splits option.splits)
  show "Close p w = Some (e, p1, w1) \<Longrightarrow> closed p \<or> pool p1 = []"
    by (auto simp: Close_def Close_range_all delete_all_keys split: if_splits)
qed

subsection \<open>No operation of the pool panics\<close>

lemma pool_returns:
  "Close p w \<noteq> None"
  "GetClient p a w \<noteq> None"
  "distinct (map fst (pool p)) \<Longrightarrow> Cleanup p w \<noteq> None"
proof -
  show "Close p w \<noteq> None"
    by (simp add: Close_def Close_range_all)
  show "GetClient p a w \<noteq> None"
  proof (cases "map_of (pool p) a")
    case None
    then show ?thesis by (simp add: GetClient_def split: prod.splits)
  next
    case (Some l)
    obtain t0 t1 where "clock_within w (length l) t0 t1"
      using clock_within_exists by blast
    from GetClient_list_window [OF this, of p] obtain r where "GetClient_list p (length l) l w = Some r"
      by blast
    then show ?thesis
      using Some by (auto simp: GetClient_def split: prod.splits option.splits)
  qed
  show "distinct (map fst (pool p)) \<Longrightarrow> Cleanup p w \<noteq> None"
  proof -
    assume d: "distinct (map fst (pool p))"
    obtain t0 t1 where "clock_within w (length (registry_clients (pool p))) t0 t1"
      using clock_within_exists by blast
    from Cleanup_range_window [OF this, of "[]" p] d obtain r where
      "Cleanup_range p (pool p) (pool p) w = Some r"
      by auto
    then show ?thesis by (cases r) (simp add: Cleanup_def)
  qed
qed

subsection \<open>GetClient and Cleanup add no client to the registry\<close>

lemma kept_by_subset: "set (kept_by vs xs) \<subseteq> set xs"
  by (auto simp: kept_by_def dest: set_zip_leftD)

lemma Cleanup_by_subset: "set (registry_clients (Cleanup_by vss reg)) \<subseteq> set (registry_clients reg)"
proof (induction reg arbitrary: vss)
  case Nil
  then show ?case by (simp add: Cleanup_by_def registry_clients_def)
next
  case (Cons e reg)
  show ?case
  proof (cases vss)
    case Nil
    then show ?thesis by (simp add: Cleanup_by_def registry_clients_def)
  next
    case (Cons vs vss')
    obtain a l where e: "e = (a, l)" by (cases e)
    have "set (registry_clients (Cleanup_by (vs # vss') ((a, l) # reg))) \<subseteq>
          set (kept_by vs l) \<union> set (registry_clients (Cleanup_by vss' reg))"
      by (auto simp: Cleanup_by_def registry_clients_def)
    then show ?thesis
      using Cons.IH [of vss'] kept_by_subset [of vs l] by (auto simp: Cons e registry_clients_def)
  qed
qed

lemma update_subset:
  assumes "map_of reg a = Some l" and "set l' \<subseteq> set l"
  shows "set (registry_clients (AList.update a l' reg)) \<subseteq> set (registry_clients reg)"
proof -
  from registry_split [OF assms(1)] obtain pre post where
    reg: "reg = pre @ (a, l) # post" and n: "a \<notin> fst ` set pre"
    by blast
  have "AList.update a l' reg = pre @ (a, l') # post"
    using n by (simp add: reg update_middle)
  then show ?thesis
    using assms(2) by (auto simp: reg registry_clients_def)
qed

lemma registry_only_shrinks:
  "GetClient p a w = Some (r, p1, w1) \<Longrightarrow>
     set (registry_clients (pool p1)) \<subseteq> set (registry_clients (pool p))"
  "distinct (map fst (pool p)) \<Longrightarrow> Cleanup p w = Some (e, p1, w1) \<Longrightarrow>
     set (registry_clients (pool p1)) \<subseteq> set (registry_clients (pool p))"
proof -
  show "set (registry_clients (pool p1)) \<subseteq> set (registry_clients (pool p))"
    if g: "GetClient p a w = Some (r, p1, w1)"
  proof (cases "closed p \<or> map_of (pool p) a = None")
    case True
    then have "p1 = p" using g by (auto simp: GetClient_def split: prod.splits if_splits)
    then show ?thesis by simp
  next
    case False
    then obtain l where m: "map_of (pool p) a = Some l" and o: "\<not> closed p" by auto
    obtain t0 t1 where "clock_within w (length l) t0 t1"
      using clock_within_exists by blast
    from GetClient_list_window [OF this, of p]
    have "\<exists>x l' w'. GetClient_list p (length l) l w = Some (x, l', w') \<and> set l' \<subseteq> set l"
    proof
      assume "\<exists>ds c rest w1.
         l = ds @ c # rest \<and> (\<forall>d\<in>set ds. \<not> recyclable_at p t1 d) \<and> recyclable_at p t0 c \<and>
         GetClient_list p (length l) l w = Some (Some c, rest, w1) \<and>
         advances w (map conn ds) (length l) w1"
      then obtain ds c rest w' where "l = ds @ c # rest"
        and "GetClient_list p (length l) l w = Some (Some c, rest, w')"
        by blast
      then have "GetClient_list p (length l) l w = Some (Some c, rest, w') \<and> set rest \<subseteq> set l"
        by auto
      then show ?thesis by blast
    next
      assume "(\<forall>d\<in>set l. \<not> recyclable_at p t1 d) \<and>
        (\<exists>w1. GetClient_list p (length l) l w = Some (None, [], w1) \<and>
              advances w (map conn l) (length l) w1)"
      then obtain w' where "GetClient_list p (length l) l w = Some (None, [], w')"
        by blast
      then have "GetClient_list p (length l) l w = Some (None, [], w') \<and> set [] \<subseteq> set l"
        by simp
      then show ?thesis by blast
    qed
    then obtain x l' w' where
      gl: "GetClient_list p (length l) l w = Some (x, l', w')" and s: "set l' \<subseteq> set l"
      by blast
    have "p1 = p\<lparr>pool := AList.update a l' (pool p)\<rparr>"
      using g m o gl by (cases x) (auto simp: GetClient_def split: prod.splits)
    then show ?thesis
      using update_subset [OF m s] by simp
  qed
  show "set (registry_clients (pool p1)) \<subseteq> set (registry_clients (pool p))"
    if d: "distinct (map fst (pool p))" and c: "Cleanup p w = Some (e, p1, w1)"
  proof (cases "closed p")
    case True
    then have "p1 = p" using c by (simp add: Cleanup_def)
    then show ?thesis by simp
  next
    case False
    obtain t0 t1 where "clock_within w (length (registry_clients (pool p))) t0 t1"
      using clock_within_exists by blast
    from Cleanup_range_window [OF this, of "[]" p] d obtain vss w' where
      "Cleanup_range p (pool p) (pool p) w = Some (Cleanup_by vss (pool p), w')"
      by auto
    then have "p1 = p\<lparr>pool := Cleanup_by vss (pool p)\<rparr>"
      using c False by (simp add: Cleanup_def)
    then show ?thesis
      using Cleanup_by_subset [of vss "pool p"] by simp
  qed
qed

subsection \<open>Close\<close>

text \<open>
  C6. The first \<open>Close\<close> of a pool that is not closed returns no error, marks the pool
  closed, closes the connection of every idle client (in the order of the registry) and
  leaves the registry empty. A second \<open>Close\<close>, in whatever world, returns no error and
  changes neither the pool nor the world: the registry is empty after both calls.
\<close>

theorem Close_twice:
  assumes "\<not> closed p"
  shows "Close p w = Some (None, p\<lparr>pool := [], closed := True\<rparr>,
                           w\<lparr>closed_conns := closed_conns w @ map conn (registry_clients (pool p))\<rparr>) \<and>
         Close (p\<lparr>pool := [], closed := True\<rparr>) w2 = Some (None, p\<lparr>pool := [], closed := True\<rparr>, w2)"
  using assms by (simp add: Close_def Close_range_all delete_all_keys)

theorem Close_twice_witness:
  "Close pool0 (world_of [] 1000) =
     Some (None, pool0\<lparr>pool := [], closed := True\<rparr>, (world_of [] 1000)\<lparr>closed_conns := [2, 3, 1, 4, 5]\<rparr>) \<and>
   Close (pool0\<lparr>pool := [], closed := True\<rparr>) (world_of [] 2000) =
     Some (None, pool0\<lparr>pool := [], closed := True\<rparr>, world_of [] 2000)"
proof -
  have h: "\<not> closed pool0" by (simp add: pool0_def)
  have c: "map conn (registry_clients (pool pool0)) = [2, 3, 1, 4, 5]"
    by (simp add: pool0_def registry_clients_def client_of_def failed_client_def)
  have w: "closed_conns (world_of [] 1000) = []" by (simp add: world_of_def)
  show ?thesis
    using Close_twice [OF h, of "world_of [] 1000" "world_of [] 2000"] by (simp add: c w)
qed

subsection \<open>Cleanup\<close>

lemma Cleanup_spec_absent:
  "a \<notin> fst ` set reg \<Longrightarrow> map_of (Cleanup_spec p now reg) a = None"
  by (induction reg) (auto simp: Cleanup_spec_def)

lemma map_of_Cleanup_spec:
  "distinct (map fst reg) \<Longrightarrow>
   map_of (Cleanup_spec p now reg) a =
     (case map_of reg a of
        None \<Rightarrow> None
      | Some l \<Rightarrow> if filter (recyclable_at p now) l = [] then None else Some (filter (recyclable_at p now) l))"
proof (induction reg)
  case Nil
  then show ?case by (simp add: Cleanup_spec_def)
next
  case (Cons e reg)
  obtain k l where e: "e = (k, l)" by (cases e)
  have s: "Cleanup_spec p now ((x, l) # reg) =
      (if filter (recyclable_at p now) l = [] then Cleanup_spec p now reg
       else (x, filter (recyclable_at p now) l) # Cleanup_spec p now reg)" for x
    by (simp add: Cleanup_spec_def)
  show ?case
  proof (cases "k = a")
    case True
    then have "a \<notin> fst ` set reg" using Cons.prems by (auto simp: e)
    then show ?thesis using True Cleanup_spec_absent [of a reg p now] by (simp add: s e)
  next
    case False
    then show ?thesis using Cons by (simp add: s e)
  qed
qed

text \<open>
  C5. On a closed pool \<open>Cleanup\<close> fails with \<open>ErrClosedRedisPool\<close> and changes nothing. On an
  open pool whose registry has one entry per key \<open>Cleanup\<close> returns no error, and:
  \<^item> with the clock at \<open>now\<close> throughout, the registry it leaves is \<open>Cleanup_spec\<close>: every
    list is reduced to its recyclable members, in their order, and an entry whose list
    becomes empty is removed (the equation on \<open>map_of\<close> says so key by key); the connections
    of the members that are not recyclable are closed, and nothing else happens to the
    world;
  \<^item> with a clock that moves between \<open>t0\<close> and \<open>t1\<close>, the same holds with every member
    judged at its own reading: a member that is kept is recyclable at \<open>t0\<close>, a member
    recyclable at \<open>t1\<close> is kept, and every member that is not kept is closed.
\<close>

theorem Cleanup_keeps_recyclable:
  "(closed p \<longrightarrow> Cleanup p w = Some (Some ErrClosedRedisPool, p, w)) \<and>
   (\<not> closed p \<and> distinct (map fst (pool p)) \<and>
    clock_within w (length (registry_clients (pool p))) now now \<longrightarrow>
      (\<exists>w1. Cleanup p w = Some (None, p\<lparr>pool := Cleanup_spec p now (pool p)\<rparr>, w1) \<and>
            only_closes w (map conn (filter (\<lambda>c. \<not> recyclable_at p now c) (registry_clients (pool p)))) w1) \<and>
      map_of (Cleanup_spec p now (pool p)) a =
        (case map_of (pool p) a of
           None \<Rightarrow> None
         | Some l \<Rightarrow>
             if filter (recyclable_at p now) l = [] then None
             else Some (filter (recyclable_at p now) l))) \<and>
   (\<not> closed p \<and> distinct (map fst (pool p)) \<and>
    clock_within w (length (registry_clients (pool p))) t0 t1 \<longrightarrow>
      (\<exists>vss w1. list_all2 (\<lambda>e vs. verdicts_within p t0 t1 (snd e) vs) (pool p) vss \<and>
                Cleanup p w = Some (None, p\<lparr>pool := Cleanup_by vss (pool p)\<rparr>, w1) \<and>
                only_closes w (closed_by vss (pool p)) w1))"
proof -
  have window: "\<exists>vss w1. list_all2 (\<lambda>e vs. verdicts_within p s0 s1 (snd e) vs) (pool p) vss \<and>
                Cleanup p w = Some (None, p\<lparr>pool := Cleanup_by vss (pool p)\<rparr>, w1) \<and>
                only_closes w (closed_by vss (pool p)) w1"
    if "\<not> closed p" and "distinct (map fst (pool p))"
      and "clock_within w (length (registry_clients (pool p))) s0 s1" for s0 s1
  proof -
    from Cleanup_range_window [of w "pool p" s0 s1 "[]" p] that obtain vss w1 where
      "list_all2 (\<lambda>e vs. verdicts_within p s0 s1 (snd e) vs) (pool p) vss"
      and "Cleanup_range p (pool p) (pool p) w = Some (Cleanup_by vss (pool p), w1)"
      and "advances w (closed_by vss (pool p)) (length (registry_clients (pool p))) w1"
      by auto
    then show ?thesis
      using that(1) advances_only_closes by (auto simp: Cleanup_def)
  qed
  have frozen: "\<exists>w1. Cleanup p w = Some (None, p\<lparr>pool := Cleanup_spec p now (pool p)\<rparr>, w1) \<and>
            only_closes w (map conn (filter (\<lambda>c. \<not> recyclable_at p now c) (registry_clients (pool p)))) w1"
    if "\<not> closed p" and "distinct (map fst (pool p))"
      and "clock_within w (length (registry_clients (pool p))) now now"
  proof -
    from window [OF that] obtain vss w1 where
      v: "list_all2 (\<lambda>e vs. verdicts_within p now now (snd e) vs) (pool p) vss"
      and c: "Cleanup p w = Some (None, p\<lparr>pool := Cleanup_by vss (pool p)\<rparr>, w1)"
      and o: "only_closes w (closed_by vss (pool p)) w1"
      by blast
    show ?thesis
      using c o registry_verdicts_frozen [OF v] by auto
  qed
  show ?thesis
    using window frozen map_of_Cleanup_spec [of "pool p" p now a]
    by (simp add: Cleanup_def)
qed

theorem Cleanup_keeps_recyclable_witness:
  "Cleanup (pool0\<lparr>pool := [], closed := True\<rparr>) (world_of [] 1000) =
     Some (Some ErrClosedRedisPool, pool0\<lparr>pool := [], closed := True\<rparr>, world_of [] 1000) \<and>
   (\<exists>w1. Cleanup pool0 (world_of [] 1000) =
            Some (None,
                  pool0\<lparr>pool := [(''10.0.0.1:6379'', [client_of 1 ''10.0.0.1:6379'' 900, client_of 4 ''10.0.0.1:6379'' 950])]\<rparr>,
                  w1) \<and>
         closed_conns w1 = [2, 3, 5] \<and> sent w1 = [] \<and> dialed w1 = []) \<and>
   (\<exists>vss w1. list_all2 (\<lambda>e vs. verdicts_within pool0 1000 1004 (snd e) vs) (pool pool0) vss \<and>
             Cleanup pool0 (ticking_world [] 1000) = Some (None, pool0\<lparr>pool := Cleanup_by vss (pool pool0)\<rparr>, w1) \<and>
             only_closes (ticking_world [] 1000) (closed_by vss (pool pool0)) w1) \<and>
   Cleanup pool0 (ticking_world [] 1000) =
     Some (None,
           pool0\<lparr>pool := [(''10.0.0.1:6379'', [client_of 1 ''10.0.0.1:6379'' 900, client_of 4 ''10.0.0.1:6379'' 950])]\<rparr>,
           (ticking_world [] 1000)\<lparr>reads := 3, closed_conns := [2, 3, 5]\<rparr>)"
proof -
  have n: "length (registry_clients (pool pool0)) = 5"
    by (simp add: registry_clients_def pool0_def)
  have h: "\<not> closed pool0" "distinct (map fst (pool pool0))"
      "clock_within (world_of [] 1000) (length (registry_clients (pool pool0))) 1000 1000"
      "clock_within (ticking_world [] 1000) (length (registry_clients (pool pool0))) 1000 1004"
    unfolding n by (simp_all add: pool0_def clock_within_def world_of_def ticking_world_def)
  have s: "Cleanup_spec pool0 1000 (pool pool0) =
      [(''10.0.0.1:6379'', [client_of 1 ''10.0.0.1:6379'' 900, client_of 4 ''10.0.0.1:6379'' 950])]"
    by (simp add: Cleanup_spec_def recyclable_at_def pool0_def client_of_def failed_client_def signed_divide_int_def)
  have d: "map conn (filter (\<lambda>c. \<not> recyclable_at pool0 1000 c) (registry_clients (pool pool0))) = [2, 3, 5]"
    by (simp add: registry_clients_def recyclable_at_def pool0_def client_of_def failed_client_def signed_divide_int_def)
  have w: "closed_conns (world_of [] 1000) = []" "sent (world_of [] 1000) = []" "dialed (world_of [] 1000) = []"
    by (simp_all add: world_of_def)
  have c: "closed (pool0\<lparr>pool := [], closed := True\<rparr>)" by simp
  have "Cleanup (pool0\<lparr>pool := [], closed := True\<rparr>) (world_of [] 1000) =
     Some (Some ErrClosedRedisPool, pool0\<lparr>pool := [], closed := True\<rparr>, world_of [] 1000)"
    using Cleanup_keeps_recyclable [of "pool0\<lparr>pool := [], closed := True\<rparr>" "world_of [] 1000"] c
    by blast
  moreover from Cleanup_keeps_recyclable [of pool0 "world_of [] 1000" 1000] h obtain w1 where
    "Cleanup pool0 (world_of [] 1000) = Some (None, pool0\<lparr>pool := Cleanup_spec pool0 1000 (pool pool0)\<rparr>, w1)"
    and "only_closes (world_of [] 1000)
           (map conn (filter (\<lambda>c. \<not> recyclable_at pool0 1000 c) (registry_clients (pool pool0)))) w1"
    by blast
  moreover have "\<exists>vss w1. list_all2 (\<lambda>e vs. verdicts_within pool0 1000 1004 (snd e) vs) (pool pool0) vss \<and>
             Cleanup pool0 (ticking_world [] 1000) = Some (None, pool0\<lparr>pool := Cleanup_by vss (pool pool0)\<rparr>, w1) \<and>
             only_closes (ticking_world [] 1000) (closed_by vss (pool pool0)) w1"
    using Cleanup_keeps_recyclable [of pool0 "ticking_world [] 1000" _ _ 1000 1004] h by blast
  moreover have "Cleanup pool0 (ticking_world [] 1000) =
     Some (None,
           pool0\<lparr>pool := [(''10.0.0.1:6379'', [client_of 1 ''10.0.0.1:6379'' 900, client_of 4 ''10.0.0.1:6379'' 950])]\<rparr>,
           (ticking_world [] 1000)\<lparr>reads := 3, closed_conns := [2, 3, 5]\<rparr>)"
    by (simp add: Cleanup_def isRecyclable_def time_Now_def conn_Close_def pool0_def client_of_def
        failed_client_def ticking_world_def world_of_def signed_divide_int_def)
  ultimately show ?thesis
    using only_closesD [of "world_of [] 1000" "[2, 3, 5]" w1] by (simp add: s d w)
qed

subsection \<open>A closed pool\<close>

lemma Close_closes:
  "Close p w = Some (e, p1, w1) \<Longrightarrow> closed p1"
  by (auto simp: Close_def Close_range_all split: if_splits)


text \<open>
  C2, as the claim states it, fails for \<open>PutClient\<close>: the method has no result, so it cannot
  fail with \<open>ErrClosedRedisPool\<close>. On the pool that \<open>Close\<close> has closed it closes the
  connection of the client it is given and returns.
\<close>

theorem PutClient_closed_counterexample:
  "Close pool0 (world_of [] 1000) =
     Some (None, pool0\<lparr>pool := [], closed := True\<rparr>, (world_of [] 1000)\<lparr>closed_conns := [2, 3, 1, 4, 5]\<rparr>) \<and>
   PutClient (pool0\<lparr>pool := [], closed := True\<rparr>) (client_of 9 ''10.0.0.1:6379'' 990) (world_of [] 1000) =
     (pool0\<lparr>pool := [], closed := True\<rparr>, (world_of [] 1000)\<lparr>closed_conns := [9]\<rparr>) \<and>
   PutClient_error (pool0\<lparr>pool := [], closed := True\<rparr>) (client_of 9 ''10.0.0.1:6379'' 990) (world_of [] 1000) \<noteq>
     Some ErrClosedRedisPool"
proof -
  have c: "map conn (registry_clients (pool pool0)) = [2, 3, 1, 4, 5]"
    by (simp add: pool0_def registry_clients_def client_of_def failed_client_def)
  have "Close pool0 (world_of [] 1000) =
     Some (None, pool0\<lparr>pool := [], closed := True\<rparr>, (world_of [] 1000)\<lparr>closed_conns := [2, 3, 1, 4, 5]\<rparr>)"
    using c by (simp add: Close_def Close_range_all delete_all_keys) (simp add: pool0_def world_of_def)
  then show ?thesis
    by (simp add: PutClient_def PutClient_error_def conn_Close_def client_of_def world_of_def)
qed


text \<open>
  C2, amended. On a pool \<open>p1\<close> that a call of \<open>Close\<close> has returned: the pool is closed;
  \<open>GetClient\<close> and \<open>Cleanup\<close> fail with \<open>ErrClosedRedisPool\<close> and change neither the pool nor
  the world; \<open>PutClient\<close> reports no error, closes the connection of the client and leaves
  the pool as it is. The pool is the same after each of these calls, so this holds for
  every later call as well.
\<close>

theorem closed_pool_calls:
  assumes "Close p w = Some (e, p1, w1)"
  shows "closed p1 \<and>
         GetClient p1 a w2 = Some (Inl ErrClosedRedisPool, p1, w2) \<and>
         Cleanup p1 w2 = Some (Some ErrClosedRedisPool, p1, w2) \<and>
         PutClient p1 c w2 = (p1, conn_Close (conn c) w2) \<and>
         PutClient_error p1 c w2 = None"
  using Close_closes [OF assms]
  by (simp add: GetClient_def Cleanup_def PutClient_def PutClient_error_def)

theorem closed_pool_calls_witness:
  "Close pool0 (world_of [] 1000) =
     Some (None, pool0\<lparr>pool := [], closed := True\<rparr>, (world_of [] 1000)\<lparr>closed_conns := [2, 3, 1, 4, 5]\<rparr>) \<and>
   GetClient (pool0\<lparr>pool := [], closed := True\<rparr>) ''10.0.0.1:6379'' (world_of [] 2000) =
     Some (Inl ErrClosedRedisPool, pool0\<lparr>pool := [], closed := True\<rparr>, world_of [] 2000) \<and>
   Cleanup (pool0\<lparr>pool := [], closed := True\<rparr>) (world_of [] 2000) =
     Some (Some ErrClosedRedisPool, pool0\<lparr>pool := [], closed := True\<rparr>, world_of [] 2000) \<and>
   PutClient (pool0\<lparr>pool := [], closed := True\<rparr>) (client_of 9 ''10.0.0.1:6379'' 990) (world_of [] 2000) =
     (pool0\<lparr>pool := [], closed := True\<rparr>, (world_of [] 2000)\<lparr>closed_conns := [9]\<rparr>)"
proof -
  have c: "map conn (registry_clients (pool pool0)) = [2, 3, 1, 4, 5]"
    by (simp add: pool0_def registry_clients_def client_of_def failed_client_def)
  have h: "Close pool0 (world_of [] 1000) =
     Some (None, pool0\<lparr>pool := [], closed := True\<rparr>, (world_of [] 1000)\<lparr>closed_conns := [2, 3, 1, 4, 5]\<rparr>)"
    using c by (simp add: Close_def Close_range_all delete_all_keys) (simp add: pool0_def world_of_def)
  have k: "conn_Close (conn (client_of 9 ''10.0.0.1:6379'' 990)) (world_of [] 2000) = (world_of [] 2000)\<lparr>closed_conns := [9]\<rparr>"
    by (simp add: conn_Close_def client_of_def world_of_def)
  show ?thesis
    using closed_pool_calls [OF h, of "''10.0.0.1:6379''" "world_of [] 2000" "client_of 9 ''10.0.0.1:6379'' 990"] h k
    by simp
qed


subsection \<open>GetClient\<close>

lemma first_split_unique:
  assumes "l = ds @ c # rest" and "\<forall>d\<in>set ds. \<not> P d" and "P c"
  shows "ds = takeWhile (\<lambda>x. \<not> P x) l \<and> c # rest = dropWhile (\<lambda>x. \<not> P x) l"
  using assms by (simp add: takeWhile_append2 dropWhile_append2)

text \<open>
  C4. On an open pool, while the clock is between \<open>t0\<close> and \<open>t1\<close>, \<open>GetClient p a\<close> does one
  of three things.
  \<^item> The list of \<open>a\<close> is \<open>ds @ c # rest\<close>, no client of \<open>ds\<close> is recyclable (at \<open>t1\<close>) and \<open>c\<close> is
    (at \<open>t0\<close>): \<open>GetClient\<close> returns \<open>c\<close>, leaves \<open>rest\<close> as the list of \<open>a\<close>, and closes the
    connections of \<open>ds\<close> in their order.
  \<^item> No client of the list of \<open>a\<close> is recyclable (at \<open>t1\<close>): all its connections are closed,
    the list is left empty, and the result is the result of \<open>NewRedisClient\<close> (a new client,
    or the error of the dial or of the authentication).
  \<^item> \<open>a\<close> has no entry: the result is the result of \<open>NewRedisClient\<close>, the pool unchanged.
  Nothing else happens to the world before the new client is made. When the clock does
  not advance during the call (\<open>t0 = t1\<close>), \<open>c\<close> is the first recyclable client of the list.
  A client returned from the list is always recyclable at \<open>t0\<close>. When the registry holds no
  connection twice, none of the clients taken from the list (returned or discarded) is in
  the registry afterwards; \<open>GetClient\<close> and \<open>Cleanup\<close> add no client to the registry
  (\<open>registry_only_shrinks\<close>), so later calls of them cannot meet a discarded client.
\<close>

theorem GetClient_first_recyclable:
  assumes "\<not> closed p"
  shows
   "(map_of (pool p) a = Some l \<and> clock_within w (length l) t0 t1 \<longrightarrow>
      (\<exists>ds c rest w1.
          l = ds @ c # rest \<and> (\<forall>d\<in>set ds. \<not> recyclable_at p t1 d) \<and> recyclable_at p t0 c \<and>
          GetClient p a w = Some (Inr c, p\<lparr>pool := AList.update a rest (pool p)\<rparr>, w1) \<and>
          only_closes w (map conn ds) w1 \<and>
          (wf_registry (pool p) \<longrightarrow>
             (\<forall>d\<in>set (ds @ [c]). conn d \<notin> conn ` set (registry_clients (AList.update a rest (pool p)))))) \<or>
      ((\<forall>d\<in>set l. \<not> recyclable_at p t1 d) \<and>
       (\<exists>w1.
          only_closes w (map conn l) w1 \<and>
          GetClient p a w =
            Some (fst (NewRedisClient a (auth p) (timeout p) w1),
                  p\<lparr>pool := AList.update a [] (pool p)\<rparr>,
                  snd (NewRedisClient a (auth p) (timeout p) w1)) \<and>
          (wf_registry (pool p) \<longrightarrow>
             (\<forall>d\<in>set l. conn d \<notin> conn ` set (registry_clients (AList.update a [] (pool p)))))))) \<and>
    (map_of (pool p) a = None \<longrightarrow>
      GetClient p a w =
        Some (fst (NewRedisClient a (auth p) (timeout p) w), p, snd (NewRedisClient a (auth p) (timeout p) w)))"
proof (intro conjI impI)
  assume h: "map_of (pool p) a = Some l \<and> clock_within w (length l) t0 t1"
  then have m: "map_of (pool p) a = Some l" and k: "clock_within w (length l) t0 t1"
    by simp_all
  from GetClient_list_window [OF k, of p]
  show "(\<exists>ds c rest w1.
          l = ds @ c # rest \<and> (\<forall>d\<in>set ds. \<not> recyclable_at p t1 d) \<and> recyclable_at p t0 c \<and>
          GetClient p a w = Some (Inr c, p\<lparr>pool := AList.update a rest (pool p)\<rparr>, w1) \<and>
          only_closes w (map conn ds) w1 \<and>
          (wf_registry (pool p) \<longrightarrow>
             (\<forall>d\<in>set (ds @ [c]). conn d \<notin> conn ` set (registry_clients (AList.update a rest (pool p)))))) \<or>
      ((\<forall>d\<in>set l. \<not> recyclable_at p t1 d) \<and>
       (\<exists>w1.
          only_closes w (map conn l) w1 \<and>
          GetClient p a w =
            Some (fst (NewRedisClient a (auth p) (timeout p) w1),
                  p\<lparr>pool := AList.update a [] (pool p)\<rparr>,
                  snd (NewRedisClient a (auth p) (timeout p) w1)) \<and>
          (wf_registry (pool p) \<longrightarrow>
             (\<forall>d\<in>set l. conn d \<notin> conn ` set (registry_clients (AList.update a [] (pool p)))))))"
  proof
    assume "\<exists>ds c rest w1.
       l = ds @ c # rest \<and> (\<forall>d\<in>set ds. \<not> recyclable_at p t1 d) \<and> recyclable_at p t0 c \<and>
       GetClient_list p (length l) l w = Some (Some c, rest, w1) \<and>
       advances w (map conn ds) (length l) w1"
    then obtain ds c rest w1 where l: "l = ds @ c # rest"
      and ds: "\<forall>d\<in>set ds. \<not> recyclable_at p t1 d" and c: "recyclable_at p t0 c"
      and g: "GetClient_list p (length l) l w = Some (Some c, rest, w1)"
      and o: "advances w (map conn ds) (length l) w1"
      by blast
    have "GetClient p a w = Some (Inr c, p\<lparr>pool := AList.update a rest (pool p)\<rparr>, w1)"
      using assms m g by (simp add: GetClient_def)
    moreover have "wf_registry (pool p) \<longrightarrow>
        (\<forall>d\<in>set (ds @ [c]). conn d \<notin> conn ` set (registry_clients (AList.update a rest (pool p))))"
      using taken_not_in_registry [of "pool p" a "ds @ [c]" rest] m by (simp add: l)
    ultimately have "l = ds @ c # rest \<and> (\<forall>d\<in>set ds. \<not> recyclable_at p t1 d) \<and> recyclable_at p t0 c \<and>
          GetClient p a w = Some (Inr c, p\<lparr>pool := AList.update a rest (pool p)\<rparr>, w1) \<and>
          only_closes w (map conn ds) w1 \<and>
          (wf_registry (pool p) \<longrightarrow>
             (\<forall>d\<in>set (ds @ [c]). conn d \<notin> conn ` set (registry_clients (AList.update a rest (pool p)))))"
      using l ds c advances_only_closes [OF o] by blast
    then show ?thesis by blast
  next
    assume n: "(\<forall>d\<in>set l. \<not> recyclable_at p t1 d) \<and>
      (\<exists>w1. GetClient_list p (length l) l w = Some (None, [], w1) \<and>
            advances w (map conn l) (length l) w1)"
    then obtain w1 where g: "GetClient_list p (length l) l w = Some (None, [], w1)"
      and o: "advances w (map conn l) (length l) w1"
      by blast
    have "GetClient p a w =
            Some (fst (NewRedisClient a (auth p) (timeout p) w1),
                  p\<lparr>pool := AList.update a [] (pool p)\<rparr>,
                  snd (NewRedisClient a (auth p) (timeout p) w1))"
      using assms m g by (simp add: GetClient_def split: prod.splits)
    moreover have "wf_registry (pool p) \<longrightarrow>
        (\<forall>d\<in>set l. conn d \<notin> conn ` set (registry_clients (AList.update a [] (pool p))))"
      using taken_not_in_registry [of "pool p" a l "[]"] m by simp
    ultimately show ?thesis
      using n advances_only_closes [OF o] by blast
  qed
next
  assume "map_of (pool p) a = None"
  then show "GetClient p a w =
        Some (fst (NewRedisClient a (auth p) (timeout p) w), p, snd (NewRedisClient a (auth p) (timeout p) w))"
    using assms by (simp add: GetClient_def split: prod.splits)
qed

theorem GetClient_first_recyclable_witness:
  "wf_registry (pool pool0) \<and>
   recyclable_at pool0 1000 (client_of 1 ''10.0.0.1:6379'' 900) \<and>
   (\<exists>w1. GetClient pool0 ''10.0.0.1:6379'' (world_of [] 1000) =
            Some (Inr (client_of 1 ''10.0.0.1:6379'' 900),
                  pool0\<lparr>pool := [(''10.0.0.1:6379'', [client_of 4 ''10.0.0.1:6379'' 950]),
                                  (''10.0.0.2:6379'', [failed_client 5 ''10.0.0.2:6379'' 990])]\<rparr>,
                  w1) \<and>
         closed_conns w1 = [2, 3] \<and> sent w1 = [] \<and> dialed w1 = []) \<and>
   (\<exists>w2. GetClient pool0 ''10.0.0.2:6379'' (world_of [Inr (RStatus ''OK'')] 1000) =
            Some (Inr \<lparr>conn = 0, addr = ''10.0.0.2:6379'', LastErr = None, LastUse = 1000\<rparr>,
                  pool0\<lparr>pool := [(''10.0.0.1:6379'',
                                    [client_of 2 ''10.0.0.1:6379'' 800, failed_client 3 ''10.0.0.1:6379'' 990,
                                     client_of 1 ''10.0.0.1:6379'' 900, client_of 4 ''10.0.0.1:6379'' 950]),
                                  (''10.0.0.2:6379'', [])]\<rparr>,
                  w2) \<and>
         closed_conns w2 = [5] \<and> sent w2 = [(0, ''AUTH'', [AStr ''secret''])] \<and> dialed w2 = [''10.0.0.2:6379'']) \<and>
   (\<exists>w2. GetClient pool0 ''10.0.0.3:6379'' (world_of [Inr (RStatus ''OK'')] 1000) =
            Some (Inr \<lparr>conn = 0, addr = ''10.0.0.3:6379'', LastErr = None, LastUse = 1000\<rparr>, pool0, w2) \<and>
         closed_conns w2 = [] \<and> sent w2 = [(0, ''AUTH'', [AStr ''secret''])] \<and> dialed w2 = [''10.0.0.3:6379'']) \<and>
   GetClient pool0 ''10.0.0.1:6379'' (ticking_world [] 1000) =
     Some (Inr (client_of 1 ''10.0.0.1:6379'' 900),
           pool0\<lparr>pool := [(''10.0.0.1:6379'', [client_of 4 ''10.0.0.1:6379'' 950]),
                           (''10.0.0.2:6379'', [failed_client 5 ''10.0.0.2:6379'' 990])]\<rparr>,
           (ticking_world [] 1000)\<lparr>reads := 2, closed_conns := [2, 3]\<rparr>)"
proof -
  let ?a1 = "''10.0.0.1:6379''" and ?a2 = "''10.0.0.2:6379''" and ?a3 = "''10.0.0.3:6379''"
  let ?l1 = "[client_of 2 ?a1 800, failed_client 3 ?a1 990, client_of 1 ?a1 900, client_of 4 ?a1 950]"
  let ?l2 = "[failed_client 5 ?a2 990]"
  let ?w = "world_of [Inr (RStatus ''OK'')] 1000"
  have o: "\<not> closed pool0" by (simp add: pool0_def)
  have k: "clock_within (world_of rs 1000) n 1000 1000" for rs n
    by (simp add: clock_within_def world_of_def)
  have wf: "wf_registry (pool pool0)"
    by (simp add: wf_registry_def registry_clients_def pool0_def client_of_def failed_client_def)
  have m: "map_of (pool pool0) ?a1 = Some ?l1" "map_of (pool pool0) ?a2 = Some ?l2" "map_of (pool pool0) ?a3 = None"
    by (simp_all add: pool0_def)
  have r: "recyclable_at pool0 1000 (client_of 1 ?a1 900)" "recyclable_at pool0 1000 (client_of 4 ?a1 950)"
      "\<not> recyclable_at pool0 1000 (client_of 2 ?a1 800)" "\<not> recyclable_at pool0 1000 (failed_client 3 ?a1 990)"
      "\<not> recyclable_at pool0 1000 (failed_client 5 ?a2 990)"
    by (simp_all add: recyclable_at_def pool0_def client_of_def failed_client_def signed_divide_int_def)
  have w0: "closed_conns (world_of rs 1000) = []" "sent (world_of rs 1000) = []" "dialed (world_of rs 1000) = []" for rs
    by (simp_all add: world_of_def)
  note t = GetClient_first_recyclable [OF o, where ?t0.0 = 1000 and ?t1.0 = 1000]
  \<comment> \<open>a recyclable client behind two that are not\<close>
  from t [where a = ?a1 and l = ?l1 and w = "world_of [] 1000"] m(1) k r(1) obtain ds c rest w1 where
    s: "?l1 = ds @ c # rest" "\<forall>d\<in>set ds. \<not> recyclable_at pool0 1000 d" "recyclable_at pool0 1000 c"
    and g: "GetClient pool0 ?a1 (world_of [] 1000) = Some (Inr c, pool0\<lparr>pool := AList.update ?a1 rest (pool pool0)\<rparr>, w1)"
    and c1: "only_closes (world_of [] 1000) (map conn ds) w1"
    by auto
  from first_split_unique [OF s] r have "ds = [client_of 2 ?a1 800, failed_client 3 ?a1 990]"
    and "c # rest = [client_of 1 ?a1 900, client_of 4 ?a1 950]"
    by simp_all
  then have A: "\<exists>w1. GetClient pool0 ?a1 (world_of [] 1000) =
            Some (Inr (client_of 1 ?a1 900),
                  pool0\<lparr>pool := [(?a1, [client_of 4 ?a1 950]), (?a2, ?l2)]\<rparr>, w1) \<and>
         closed_conns w1 = [2, 3] \<and> sent w1 = [] \<and> dialed w1 = []"
    using g only_closesD [OF c1] by (simp add: w0) (simp add: pool0_def client_of_def failed_client_def)
  \<comment> \<open>no recyclable client: a new one\<close>
  have nf: "\<not> (\<exists>ds c rest. ?l2 = ds @ c # rest \<and> recyclable_at pool0 1000 c)"
    using r(5) by (auto simp: Cons_eq_append_conv)
  from t [where a = ?a2 and l = ?l2 and w = ?w] m(2) k nf obtain w1 where
    c2: "only_closes ?w (map conn ?l2) w1"
    and g2: "GetClient pool0 ?a2 ?w =
            Some (fst (NewRedisClient ?a2 (auth pool0) (timeout pool0) w1),
                  pool0\<lparr>pool := AList.update ?a2 [] (pool pool0)\<rparr>,
                  snd (NewRedisClient ?a2 (auth pool0) (timeout pool0) w1))"
    by blast
  from c2 obtain n where w1: "w1 = ?w\<lparr>reads := reads ?w + n, closed_conns := closed_conns ?w @ map conn ?l2\<rparr>"
    by (auto simp: only_closes_def)
  have B: "\<exists>w2. GetClient pool0 ?a2 ?w =
            Some (Inr \<lparr>conn = 0, addr = ?a2, LastErr = None, LastUse = 1000\<rparr>,
                  pool0\<lparr>pool := [(?a1, ?l1), (?a2, [])]\<rparr>, w2) \<and>
         closed_conns w2 = [5] \<and> sent w2 = [(0, ''AUTH'', [AStr ''secret''])] \<and> dialed w2 = [?a2]"
    unfolding g2 w1
    by (simp add: NewRedisClient_def redis_DialTimeout_def conn_Do_def time_Now_def world_of_def pool0_def
        failed_client_def)
  \<comment> \<open>no entry: a new one\<close>
  have C: "\<exists>w2. GetClient pool0 ?a3 ?w =
            Some (Inr \<lparr>conn = 0, addr = ?a3, LastErr = None, LastUse = 1000\<rparr>, pool0, w2) \<and>
         closed_conns w2 = [] \<and> sent w2 = [(0, ''AUTH'', [AStr ''secret''])] \<and> dialed w2 = [?a3]"
    using t [where a = ?a3 and w = ?w] m(3)
    by (simp add: NewRedisClient_def redis_DialTimeout_def conn_Do_def time_Now_def world_of_def pool0_def)
  \<comment> \<open>the first case with a clock that advances\<close>
  have D: "GetClient pool0 ?a1 (ticking_world [] 1000) =
     Some (Inr (client_of 1 ?a1 900),
           pool0\<lparr>pool := [(?a1, [client_of 4 ?a1 950]), (?a2, ?l2)]\<rparr>,
           (ticking_world [] 1000)\<lparr>reads := 2, closed_conns := [2, 3]\<rparr>)"
    by (simp add: GetClient_def isRecyclable_def time_Now_def conn_Close_def pool0_def client_of_def
        failed_client_def ticking_world_def world_of_def signed_divide_int_def)
  show ?thesis
    using wf r(1) A B C D by blast
qed

end
